theory Spec2Isabelle
  imports Main
begin

section \<open>Strings\<close>

text \<open>
  A Python string is a list of characters. What the Python library does with a character
  beyond ASCII is not fixed here: \<^verbatim>\<open>str.lower\<close>, the white space of \<^verbatim>\<open>str.strip\<close>, the
  word characters of the regular expression engine and its comparison up to case are
  parameters of the functions that use them, named \<open>lower\<close>, \<open>space\<close>, \<open>word\<close> and
  \<open>ci\<close>. The functions below with \<open>ascii\<close> in their names are what these library
  functions are on ASCII strings; they instantiate the parameters in the examples, whose
  strings are all ASCII.
\<close>

definition upper_letters :: string where
  "upper_letters = ''ABCDEFGHIJKLMNOPQRSTUVWXYZ''"

definition lower_letters :: string where
  "lower_letters = ''abcdefghijklmnopqrstuvwxyz''"

definition digits :: string where
  "digits = ''0123456789''"

definition ascii_lower_char :: "char \<Rightarrow> char" where
  "ascii_lower_char c =
     (case map_of (zip upper_letters lower_letters) c of None \<Rightarrow> c | Some d \<Rightarrow> d)"

definition ascii_upper_char :: "char \<Rightarrow> char" where
  "ascii_upper_char c =
     (case map_of (zip lower_letters upper_letters) c of None \<Rightarrow> c | Some d \<Rightarrow> d)"

definition ascii_lower :: "string \<Rightarrow> string" where
  "ascii_lower s = map ascii_lower_char s"

text \<open>
  \<^verbatim>\<open>str.upper\<close> is applied to the keys of \<^verbatim>\<open>PATTERNS\<close> only, which are ASCII.
\<close>

definition ascii_upper :: "string \<Rightarrow> string" where
  "ascii_upper s = map ascii_upper_char s"

definition ascii_word :: "char \<Rightarrow> bool" where
  "ascii_word c = (c \<in> set (lower_letters @ upper_letters @ digits @ ''_''))"

definition ascii_ci :: "char \<Rightarrow> char \<Rightarrow> bool" where
  "ascii_ci c d = (ascii_lower_char c = ascii_lower_char d)"

definition no_space :: "char \<Rightarrow> bool" where
  "no_space c = False"

section \<open>The mapping document\<close>

text \<open>
  An entity is a dictionary with the keys \<^verbatim>\<open>original\<close>, \<^verbatim>\<open>alias\<close>, \<^verbatim>\<open>type\<close>,
  \<^verbatim>\<open>variations\<close>, \<^verbatim>\<open>notes\<close> and \<^verbatim>\<open>added\<close>, typed as the data model types them.
\<close>

record entity =
  original :: string
  "alias" :: string
  "type" :: string
  variations :: "string list"
  "notes" :: string
  added :: string

record mapping =
  version :: string
  created :: string
  updated :: string
  entities :: "entity list"

text \<open>\<^verbatim>\<open>_empty_mapping\<close>; the clock reading is the parameter \<open>now\<close>.\<close>

definition empty_mapping :: "string \<Rightarrow> mapping" where
  "empty_mapping now = \<lparr>version = ''1.0'', created = now, updated = now, entities = []\<rparr>"

section \<open>AliasManager\<close>

text \<open>
  The duplicate check of \<^verbatim>\<open>add_entity\<close>: the loop leaves with \<^verbatim>\<open>False\<close> at the first
  entity whose original, or else whose alias, equals the argument once both are lowered.
\<close>

fun has_duplicate :: "(string \<Rightarrow> string) \<Rightarrow> string \<Rightarrow> string \<Rightarrow> entity list \<Rightarrow> bool" where
  "has_duplicate lower orig als [] = False"
| "has_duplicate lower orig als (e # es) =
     (if lower (original e) = lower orig then True
      else if lower (alias e) = lower als then True
      else has_duplicate lower orig als es)"

text \<open>\<^verbatim>\<open>variations or []\<close>: the argument is \<^verbatim>\<open>None\<close> or a list.\<close>

definition or_empty :: "string list option \<Rightarrow> string list" where
  "or_empty vs = (case vs of None \<Rightarrow> [] | Some l \<Rightarrow> l)"

definition new_entity ::
  "string \<Rightarrow> string \<Rightarrow> string \<Rightarrow> string list option \<Rightarrow> string \<Rightarrow> string \<Rightarrow> entity" where
  "new_entity orig als ety vs nts now =
     \<lparr>original = orig, alias = als, type = ety, variations = or_empty vs, notes = nts,
      added = now\<rparr>"

definition add_entity ::
  "(string \<Rightarrow> string) \<Rightarrow> mapping \<Rightarrow> string \<Rightarrow> string \<Rightarrow> string \<Rightarrow> string list option \<Rightarrow> string
     \<Rightarrow> string \<Rightarrow> bool \<times> mapping" where
  "add_entity lower m orig als ety vs nts now =
     (if has_duplicate lower orig als (entities m) then (False, m)
      else (True, m\<lparr>entities := entities m @ [new_entity orig als ety vs nts now]\<rparr>))"

text \<open>
  \<^verbatim>\<open>remove_entity\<close>: the first entity whose lowered original equals the lowered argument
  is deleted; \<open>None\<close> when the loop ends without a deletion.
\<close>

fun remove_first :: "(string \<Rightarrow> string) \<Rightarrow> string \<Rightarrow> entity list \<Rightarrow> entity list option" where
  "remove_first lower orig [] = None"
| "remove_first lower orig (e # es) =
     (if lower (original e) = lower orig then Some es
      else map_option ((#) e) (remove_first lower orig es))"

definition remove_entity :: "(string \<Rightarrow> string) \<Rightarrow> mapping \<Rightarrow> string \<Rightarrow> bool \<times> mapping" where
  "remove_entity lower m orig =
     (case remove_first lower orig (entities m) of
        None \<Rightarrow> (False, m)
      | Some es \<Rightarrow> (True, m\<lparr>entities := es\<rparr>))"

text \<open>\<^verbatim>\<open>get_entity\<close>: per entity, the original is compared first, then each variation in turn.\<close>

fun has_variation :: "(string \<Rightarrow> string) \<Rightarrow> string \<Rightarrow> string list \<Rightarrow> bool" where
  "has_variation lower q [] = False"
| "has_variation lower q (v # vs) = (if lower v = lower q then True else has_variation lower q vs)"

fun get_entity_loop :: "(string \<Rightarrow> string) \<Rightarrow> entity list \<Rightarrow> string \<Rightarrow> entity option" where
  "get_entity_loop lower [] q = None"
| "get_entity_loop lower (e # es) q =
     (if lower (original e) = lower q then Some e
      else if has_variation lower q (variations e) then Some e
      else get_entity_loop lower es q)"

definition get_entity :: "(string \<Rightarrow> string) \<Rightarrow> mapping \<Rightarrow> string \<Rightarrow> entity option" where
  "get_entity lower m q = get_entity_loop lower (entities m) q"

definition get_alias :: "(string \<Rightarrow> string) \<Rightarrow> mapping \<Rightarrow> string \<Rightarrow> string option" where
  "get_alias lower m q = (case get_entity lower m q of Some e \<Rightarrow> Some (alias e) | None \<Rightarrow> None)"

text \<open>
  \<^verbatim>\<open>get_entity\<close> returns a reference into the entity list; \<open>get_entity_ref\<close> is the
  position of the entity it returns, for the callers that assign through the reference.
\<close>

fun get_entity_ref :: "(string \<Rightarrow> string) \<Rightarrow> entity list \<Rightarrow> string \<Rightarrow> nat option" where
  "get_entity_ref lower [] q = None"
| "get_entity_ref lower (e # es) q =
     (if lower (original e) = lower q then Some 0
      else if has_variation lower q (variations e) then Some 0
      else map_option Suc (get_entity_ref lower es q))"

subsection \<open>Updating an entity\<close>

text \<open>
  \<^verbatim>\<open>update_entity\<close> stores whatever value a keyword carries, so after it an entity is no
  longer bound to the types of the data model: it is the dictionary itself, the keys in
  insertion order, with Python values.
\<close>

datatype pyval = PNone | PBool bool | PInt int | PStr string | PList "pyval list"

type_synonym dict = "(string \<times> pyval) list"

definition to_dict :: "entity \<Rightarrow> dict" where
  "to_dict e =
     [(''original'', PStr (original e)), (''alias'', PStr (alias e)), (''type'', PStr (type e)),
      (''variations'', PList (map PStr (variations e))), (''notes'', PStr (notes e)),
      (''added'', PStr (added e))]"

record dict_mapping =
  d_version :: string
  d_created :: string
  d_updated :: string
  d_entities :: "dict list"

definition to_dict_mapping :: "mapping \<Rightarrow> dict_mapping" where
  "to_dict_mapping m =
     \<lparr>d_version = version m, d_created = created m, d_updated = updated m,
      d_entities = map to_dict (entities m)\<rparr>"

text \<open>\<^verbatim>\<open>entity[field] = value\<close>.\<close>

fun dict_set :: "dict \<Rightarrow> string \<Rightarrow> pyval \<Rightarrow> dict" where
  "dict_set [] k v = [(k, v)]"
| "dict_set ((k', v') # d) k v = (if k' = k then (k, v) # d else (k', v') # dict_set d k v)"

definition allowed_fields :: "string list" where
  "allowed_fields = [''alias'', ''type'', ''variations'', ''notes'']"

text \<open>The loop of \<^verbatim>\<open>update_entity\<close> over the keyword arguments, in their order.\<close>

fun apply_kwargs :: "dict \<Rightarrow> (string \<times> pyval) list \<Rightarrow> dict" where
  "apply_kwargs d [] = d"
| "apply_kwargs d ((field, val) # kwargs) =
     apply_kwargs (if field \<in> set allowed_fields then dict_set d field val else d) kwargs"

datatype py_error = TypeError | Csv_error | Re_error | IndexError

text \<open>
  A keyword named \<^verbatim>\<open>self\<close> or \<^verbatim>\<open>original\<close> meets a parameter of the same name: the
  call raises \<^verbatim>\<open>TypeError\<close> before the body runs.
\<close>

definition update_entity ::
  "(string \<Rightarrow> string) \<Rightarrow> mapping \<Rightarrow> string \<Rightarrow> (string \<times> pyval) list
     \<Rightarrow> (py_error + bool) \<times> dict_mapping" where
  "update_entity lower m orig kwargs =
     (if ''self'' \<in> fst ` set kwargs \<or> ''original'' \<in> fst ` set kwargs
      then (Inl TypeError, to_dict_mapping m)
      else case get_entity_ref lower (entities m) orig of
             None \<Rightarrow> (Inr False, to_dict_mapping m)
           | Some i \<Rightarrow>
               (Inr True,
                (to_dict_mapping m)
                  \<lparr>d_entities :=
                     (map to_dict (entities m))[i := apply_kwargs (to_dict (entities m ! i)) kwargs]\<rparr>))"

text \<open>
  What the keywords leave under a key: the value given last for a key of the whitelist,
  otherwise what was there.
\<close>

definition updated_value :: "(string \<times> pyval) list \<Rightarrow> string \<Rightarrow> pyval option \<Rightarrow> pyval option" where
  "updated_value kwargs k old =
     (if k \<in> set allowed_fields
      then (case map_of (rev kwargs) k of Some v \<Rightarrow> Some v | None \<Rightarrow> old)
      else old)"

subsection \<open>Validation\<close>

text \<open>
  \<^verbatim>\<open>validate\<close>. An issue is kept as a value instead of the message formatted from it: the
  two duplicate issues carry the set of lowered strings occurring more than once, the two
  missing-field issues the position of the entity.
\<close>

datatype issue =
    Duplicate_originals "string set"
  | Duplicate_aliases "string set"
  | Missing_original nat
  | Missing_alias nat

record validation =
  valid :: bool
  issues :: "issue list"

definition duplicates :: "string list \<Rightarrow> string set" where
  "duplicates xs = set (filter (\<lambda>x. 1 < count_list xs x) xs)"

fun missing_fields :: "nat \<Rightarrow> entity list \<Rightarrow> issue list" where
  "missing_fields i [] = []"
| "missing_fields i (e # es) =
     (if original e = [] then [Missing_original i] else []) @
     (if alias e = [] then [Missing_alias i] else []) @
     missing_fields (Suc i) es"

definition validate_issues :: "(string \<Rightarrow> string) \<Rightarrow> mapping \<Rightarrow> issue list" where
  "validate_issues lower m =
     (let originals = map (\<lambda>e. lower (original e)) (entities m);
          aliases = map (\<lambda>e. lower (alias e)) (entities m)
      in (if duplicates originals \<noteq> {} then [Duplicate_originals (duplicates originals)] else []) @
         (if duplicates aliases \<noteq> {} then [Duplicate_aliases (duplicates aliases)] else []) @
         missing_fields 0 (entities m))"

definition validate :: "(string \<Rightarrow> string) \<Rightarrow> mapping \<Rightarrow> validation" where
  "validate lower m =
     \<lparr>valid = (length (validate_issues lower m) = 0), issues = validate_issues lower m\<rparr>"

subsection \<open>Merging\<close>

text \<open>
  \<^verbatim>\<open>merge\<close>. The incoming entities are processed in order; \<open>clock k\<close> is the clock
  reading while element \<open>k\<close> is processed. The values returned by \<^verbatim>\<open>remove_entity\<close> and
  \<^verbatim>\<open>add_entity\<close> are dropped, as in the source.
\<close>

record merge_results =
  m_added :: nat
  m_skipped :: nat
  m_overwritten :: nat

definition merge_step ::
  "(string \<Rightarrow> string) \<Rightarrow> string \<Rightarrow> string \<Rightarrow> entity \<Rightarrow> mapping \<times> merge_results
     \<Rightarrow> mapping \<times> merge_results" where
  "merge_step lower conflict_strategy now ent s =
     (let m = fst s; results = snd s in
      case get_entity lower m (original ent) of
        Some existing \<Rightarrow>
          if conflict_strategy = ''overwrite'' then
            (let m1 = snd (remove_entity lower m (original ent));
                 m2 = snd (add_entity lower m1 (original ent) (alias ent) (type ent)
                             (Some (variations ent)) (notes ent) now)
             in (m2, results\<lparr>m_overwritten := m_overwritten results + 1\<rparr>))
          else (m, results\<lparr>m_skipped := m_skipped results + 1\<rparr>)
      | None \<Rightarrow>
          (let m2 = snd (add_entity lower m (original ent) (alias ent) (type ent)
                           (Some (variations ent)) (notes ent) now)
           in (m2, results\<lparr>m_added := m_added results + 1\<rparr>)))"

fun merge_loop ::
  "(string \<Rightarrow> string) \<Rightarrow> string \<Rightarrow> (nat \<Rightarrow> string) \<Rightarrow> nat \<Rightarrow> entity list
     \<Rightarrow> mapping \<times> merge_results \<Rightarrow> mapping \<times> merge_results" where
  "merge_loop lower conflict_strategy clock k [] s = s"
| "merge_loop lower conflict_strategy clock k (ent # ents) s =
     merge_loop lower conflict_strategy clock (Suc k) ents
       (merge_step lower conflict_strategy (clock k) ent s)"

definition merge ::
  "(string \<Rightarrow> string) \<Rightarrow> mapping \<Rightarrow> entity list \<Rightarrow> string \<Rightarrow> (nat \<Rightarrow> string)
     \<Rightarrow> mapping \<times> merge_results" where
  "merge lower m other_entities conflict_strategy clock =
     merge_loop lower conflict_strategy clock 0 other_entities
       (m, \<lparr>m_added = 0, m_skipped = 0, m_overwritten = 0\<rparr>)"

section \<open>Tabular export and import\<close>

text \<open>
  The file is kept as its rows of cells. \<^verbatim>\<open>csv.writer\<close> quotes a cell that holds a
  delimiter, a quote or a line break and \<^verbatim>\<open>csv.reader\<close> undoes the quoting, so the text
  layer gives a cell back as written, with two exceptions. The source makes the first
  visible: \<^verbatim>\<open>export_csv\<close> opens the file with \<^verbatim>\<open>newline=''\<close> and \<^verbatim>\<open>import_csv\<close>
  without it, so on reading every carriage return, alone or before a line feed, arrives as
  a line feed, inside quoted cells too. The second is the field size limit of the reader,
  131072 characters: a longer cell raises \<^verbatim>\<open>csv.Error\<close>.
\<close>

definition CR :: char where "CR = CHR 0x0D"
definition LF :: char where "LF = CHR 0x0A"

fun universal_newlines :: "bool \<Rightarrow> string \<Rightarrow> string" where
  "universal_newlines after_cr [] = []"
| "universal_newlines after_cr (c # cs) =
     (if c = CR then LF # universal_newlines True cs
      else if c = LF \<and> after_cr then universal_newlines False cs
      else c # universal_newlines False cs)"

definition read_cell :: "string \<Rightarrow> string" where
  "read_cell cell = universal_newlines False cell"

definition field_size_limit :: nat where
  "field_size_limit = 131072"

definition too_long :: "string list \<Rightarrow> bool" where
  "too_long r = list_ex (\<lambda>cell. field_size_limit < length (read_cell cell)) r"

text \<open>\<^verbatim>\<open>sep.join(xs)\<close> and \<^verbatim>\<open>s.split(c)\<close> for a one-character separator.\<close>

fun join :: "string \<Rightarrow> string list \<Rightarrow> string" where
  "join sep [] = []"
| "join sep [x] = x"
| "join sep (x # y # ys) = x @ sep @ join sep (y # ys)"

fun split :: "char \<Rightarrow> string \<Rightarrow> string list" where
  "split c [] = [[]]"
| "split c (x # xs) =
     (if x = c then [] # split c xs
      else (case split c xs of [] \<Rightarrow> [[x]] | w # ws \<Rightarrow> (x # w) # ws))"

text \<open>
  \<^verbatim>\<open>s.strip()\<close> removes the white space at both ends. The ASCII white space of
  \<^verbatim>\<open>str.isspace\<close> is listed; the parameter \<open>space\<close> says which of the other characters
  are white space.
\<close>

definition ascii_whitespace :: string where
  "ascii_whitespace = [CHR 0x09, CHR 0x0A, CHR 0x0B, CHR 0x0C, CHR 0x0D,
                       CHR 0x1C, CHR 0x1D, CHR 0x1E, CHR 0x1F, CHR 0x20]"

definition is_space :: "(char \<Rightarrow> bool) \<Rightarrow> char \<Rightarrow> bool" where
  "is_space space c = (c \<in> set ascii_whitespace \<or> space c)"

definition strip :: "(char \<Rightarrow> bool) \<Rightarrow> string \<Rightarrow> string" where
  "strip space s = rev (dropWhile (is_space space) (rev (dropWhile (is_space space) s)))"

definition csv_header :: "string list" where
  "csv_header = [''Original'', ''Alias'', ''Type'', ''Variations'', ''Notes'']"

definition entity_row :: "entity \<Rightarrow> string list" where
  "entity_row e = [original e, alias e, type e, join ''; '' (variations e), notes e]"

definition export_csv :: "mapping \<Rightarrow> string list list" where
  "export_csv m = csv_header # map entity_row (entities m)"

text \<open>
  A row of \<^verbatim>\<open>csv.DictReader\<close> is the dictionary of its cells under the field names, a
  later column winning over an earlier one of the same name.
\<close>

type_synonym row = "string \<rightharpoonup> string"

definition dict_row :: "string list \<Rightarrow> string list \<Rightarrow> row" where
  "dict_row fieldnames r = map_of (rev (zip fieldnames (map read_cell r)))"

record import_results =
  i_added :: nat
  i_skipped :: nat
  i_errors :: "string list"

text \<open>\<^verbatim>\<open>str(KeyError(key))\<close> is the key between single quotes.\<close>

definition key_error :: "string \<Rightarrow> string" where
  "key_error k = [CHR 0x27] @ k @ [CHR 0x27]"

definition row_get :: "row \<Rightarrow> string \<Rightarrow> string \<Rightarrow> string" where
  "row_get r k dflt = (case r k of None \<Rightarrow> dflt | Some v \<Rightarrow> v)"

definition parse_variations :: "(char \<Rightarrow> bool) \<Rightarrow> string \<Rightarrow> string list" where
  "parse_variations space cell =
     filter (\<lambda>v. v \<noteq> []) (map (strip space) (split (CHR '';'') cell))"

text \<open>
  One row of \<^verbatim>\<open>import_csv\<close>. A missing \<^verbatim>\<open>Original\<close> or \<^verbatim>\<open>Alias\<close> column raises
  \<^verbatim>\<open>KeyError\<close>, which the \<^verbatim>\<open>except\<close> clause turns into an entry of the error list; with
  \<^verbatim>\<open>overwrite\<close> the removal has already happened when \<^verbatim>\<open>Alias\<close> is looked up.
\<close>

definition import_row ::
  "(string \<Rightarrow> string) \<Rightarrow> (char \<Rightarrow> bool) \<Rightarrow> bool \<Rightarrow> string \<Rightarrow> row
     \<Rightarrow> mapping \<times> import_results \<Rightarrow> mapping \<times> import_results" where
  "import_row lower space overwrite now r s =
     (let m = fst s; results = snd s;
          vs = parse_variations space (row_get r ''Variations'' [])
      in case r ''Original'' of
           None \<Rightarrow> (m, results\<lparr>i_errors := i_errors results @ [key_error ''Original'']\<rparr>)
         | Some orig \<Rightarrow>
             (let m1 = (if overwrite then snd (remove_entity lower m orig) else m)
              in case r ''Alias'' of
                   None \<Rightarrow> (m1, results\<lparr>i_errors := i_errors results @ [key_error ''Alias'']\<rparr>)
                 | Some als \<Rightarrow>
                     (let res = add_entity lower m1 orig als (row_get r ''Type'' ''other'')
                                  (Some vs) (row_get r ''Notes'' []) now
                      in if fst res then (snd res, results\<lparr>i_added := i_added results + 1\<rparr>)
                         else (snd res, results\<lparr>i_skipped := i_skipped results + 1\<rparr>))))"

text \<open>
  The outcome of \<^verbatim>\<open>import_csv\<close>: it returns its results, or the reader raises and the
  exception leaves the function, the store being what the rows before have made it (the
  loop over the reader is outside the \<^verbatim>\<open>try\<close>). A row with fewer cells than field names
  gets cells of value \<^verbatim>\<open>None\<close>, which the typed entity cannot hold: \<open>Short_row\<close> marks
  such a file, which is outside the model.
\<close>

datatype import_outcome =
    Imported mapping import_results
  | Raised py_error mapping
  | Short_row

text \<open>
  The rows are read one at a time, blank rows skipped; \<open>clock k\<close> is the clock reading
  while the row numbered \<open>k\<close> among those processed is imported.
\<close>

fun import_loop ::
  "(string \<Rightarrow> string) \<Rightarrow> (char \<Rightarrow> bool) \<Rightarrow> bool \<Rightarrow> (nat \<Rightarrow> string) \<Rightarrow> nat \<Rightarrow> string list
     \<Rightarrow> string list list \<Rightarrow> mapping \<times> import_results \<Rightarrow> import_outcome" where
  "import_loop lower space overwrite clock k fieldnames [] s = Imported (fst s) (snd s)"
| "import_loop lower space overwrite clock k fieldnames (r # rs) s =
     (if too_long r then Raised Csv_error (fst s)
      else if r = [] then import_loop lower space overwrite clock k fieldnames rs s
      else if length r < length fieldnames then Short_row
      else import_loop lower space overwrite clock (Suc k) fieldnames rs
             (import_row lower space overwrite (clock k) (dict_row fieldnames r) s))"

definition import_csv ::
  "(string \<Rightarrow> string) \<Rightarrow> (char \<Rightarrow> bool) \<Rightarrow> mapping \<Rightarrow> string list list \<Rightarrow> bool
     \<Rightarrow> (nat \<Rightarrow> string) \<Rightarrow> import_outcome" where
  "import_csv lower space m file overwrite clock =
     (case file of
        [] \<Rightarrow> Imported m \<lparr>i_added = 0, i_skipped = 0, i_errors = []\<rparr>
      | fieldnames # rows \<Rightarrow>
          if too_long fieldnames then Raised Csv_error m
          else import_loop lower space overwrite clock 0 (map read_cell fieldnames) rows
                 (m, \<lparr>i_added = 0, i_skipped = 0, i_errors = []\<rparr>))"

text \<open>The five fields on which two entity sets are compared.\<close>

definition core :: "entity \<Rightarrow> string \<times> string \<times> string \<times> string list \<times> string" where
  "core e = (original e, alias e, type e, variations e, notes e)"

text \<open>
  An entity that the tabular format carries without loss: no cell of its row holds a
  carriage return or is longer than the field size limit, and every variation is free of
  semicolons, not empty and without white space at either end.
\<close>

definition clean_entity :: "(char \<Rightarrow> bool) \<Rightarrow> entity \<Rightarrow> bool" where
  "clean_entity space e \<longleftrightarrow>
     list_all (\<lambda>cell. CR \<notin> set cell \<and> length cell \<le> field_size_limit) (entity_row e)
     \<and> list_all (\<lambda>v. CHR '';'' \<notin> set v \<and> v \<noteq> [] \<and> strip space v = v) (variations e)"

section \<open>TextRedactor\<close>

text \<open>
  An entry of the redaction log, by its \<^verbatim>\<open>type\<close> key: a pattern entry holds the pattern
  name, the matched text and the replacement; an entity entry the matched text, the
  replacement and \<^verbatim>\<open>mapped_from\<close>; a random entry the entity string and the replacement.
\<close>

datatype log_entry =
    Pattern_entry string string string
  | Entity_entry string string string
  | Random_entry string string

fun kind :: "log_entry \<Rightarrow> string" where
  "kind (Pattern_entry pattern_name orig r) = ''pattern''"
| "kind (Entity_entry orig r mapped_from) = ''entity''"
| "kind (Random_entry orig r) = ''random''"

fun replacement :: "log_entry \<Rightarrow> string" where
  "replacement (Pattern_entry pattern_name orig r) = r"
| "replacement (Entity_entry orig r mapped_from) = r"
| "replacement (Random_entry orig r) = r"

record redactor =
  r_mapping :: mapping
  redaction_log :: "log_entry list"
  random_counter :: "(string \<times> nat) list"

text \<open>\<^verbatim>\<open>d[k] = v\<close> on a dictionary of counters, kept in insertion order.\<close>

fun counter_set :: "(string \<times> nat) list \<Rightarrow> string \<Rightarrow> nat \<Rightarrow> (string \<times> nat) list" where
  "counter_set [] k v = [(k, v)]"
| "counter_set ((k', v') # d) k v = (if k' = k then (k, v) # d else (k', v') # counter_set d k v)"

text \<open>The format \<^verbatim>\<open>:03d\<close> of a counter: its decimal digits, filled with zeros up to three.\<close>

fun decimal :: "nat \<Rightarrow> string" where
  "decimal n = (if n < 10 then [digits ! n] else decimal (n div 10) @ [digits ! (n mod 10)])"

declare decimal.simps [simp del]

definition format_03d :: "nat \<Rightarrow> string" where
  "format_03d n = replicate (3 - length (decimal n)) (CHR ''0'') @ decimal n"

subsection \<open>Matching\<close>

text \<open>
  The result of scanning a text for a pattern, as \<^verbatim>\<open>re.sub\<close> scans it (leftmost match
  first, the search resuming where the match ended): the matches in order, each with the
  unmatched text before it, and the unmatched text after the last match.
\<close>

type_synonym scan = "(string \<times> string) list \<times> string"

fun push :: "char \<Rightarrow> scan \<Rightarrow> scan" where
  "push c ([], tail) = ([], c # tail)"
| "push c ((gap, m) # segs, tail) = ((c # gap, m) # segs, tail)"

fun found :: "string \<Rightarrow> scan \<Rightarrow> scan" where
  "found m (segs, tail) = (([], m) # segs, tail)"

definition last_char :: "char option \<Rightarrow> string \<Rightarrow> char option" where
  "last_char prev s = (if s = [] then prev else Some (last s))"

text \<open>
  The scan for a pattern whose matches all have length \<open>n\<close>; \<open>P prev rest\<close> says that
  the pattern matches at the start of \<open>rest\<close>, the character before being \<open>prev\<close>. An
  empty match (\<open>n = 0\<close>) is followed by the next character of the text.
\<close>

function scan_matches :: "(char option \<Rightarrow> string \<Rightarrow> bool) \<Rightarrow> nat \<Rightarrow> char option \<Rightarrow> string \<Rightarrow> scan" where
  "scan_matches P n prev rest =
     (if P prev rest \<and> 0 < n \<and> n \<le> length rest then
        found (take n rest) (scan_matches P n (last_char prev (take n rest)) (drop n rest))
      else (case rest of
              [] \<Rightarrow> (if P prev rest \<and> n = 0 then found [] ([], []) else ([], []))
            | c # cs \<Rightarrow>
                (if P prev rest \<and> n = 0
                 then found [] (push c (scan_matches P n (Some c) cs))
                 else push c (scan_matches P n (Some c) cs))))"
  by pat_completeness auto
termination
  by (relation "measure (\<lambda>(P, n, prev, rest). length rest)") auto

declare scan_matches.simps [simp del]

text \<open>
  The pattern \<^verbatim>\<open>r'\b' + re.escape(term) + r'\b'\<close>: the term itself between two word
  boundaries. A word boundary lies between a word character and a character that is none,
  the two ends of the text counting as none; \<open>word\<close> says which characters are word
  characters. Under \<^verbatim>\<open>re.IGNORECASE\<close> a character of the term matches a character of
  the text when \<open>ci\<close> holds of the two.
\<close>

definition word_before :: "(char \<Rightarrow> bool) \<Rightarrow> char option \<Rightarrow> bool" where
  "word_before word prev = (case prev of None \<Rightarrow> False | Some c \<Rightarrow> word c)"

definition word_after :: "(char \<Rightarrow> bool) \<Rightarrow> string \<Rightarrow> bool" where
  "word_after word rest = (case rest of [] \<Rightarrow> False | c # cs \<Rightarrow> word c)"

definition boundary :: "(char \<Rightarrow> bool) \<Rightarrow> char option \<Rightarrow> string \<Rightarrow> bool" where
  "boundary word prev rest = (word_before word prev \<noteq> word_after word rest)"

definition literal_eq :: "(char \<Rightarrow> char \<Rightarrow> bool) \<Rightarrow> bool \<Rightarrow> string \<Rightarrow> string \<Rightarrow> bool" where
  "literal_eq ci ignorecase term s = (if ignorecase then list_all2 ci term s else term = s)"

definition match_at ::
  "(char \<Rightarrow> bool) \<Rightarrow> (char \<Rightarrow> char \<Rightarrow> bool) \<Rightarrow> bool \<Rightarrow> string \<Rightarrow> char option \<Rightarrow> string \<Rightarrow> bool" where
  "match_at word ci ignorecase term prev rest =
     (boundary word prev rest \<and> length term \<le> length rest
      \<and> literal_eq ci ignorecase term (take (length term) rest)
      \<and> boundary word (last_char prev (take (length term) rest)) (drop (length term) rest))"

definition word_scan ::
  "(char \<Rightarrow> bool) \<Rightarrow> (char \<Rightarrow> char \<Rightarrow> bool) \<Rightarrow> bool \<Rightarrow> string \<Rightarrow> string \<Rightarrow> scan" where
  "word_scan word ci ignorecase term text =
     scan_matches (match_at word ci ignorecase term) (length term) None text"

text \<open>\<^verbatim>\<open>re.sub\<close> with a function as replacement: the function is called on each match in turn.\<close>

fun re_sub_fn ::
  "(string \<Rightarrow> redactor \<Rightarrow> string \<times> redactor) \<Rightarrow> (string \<times> string) list \<Rightarrow> string \<Rightarrow> redactor
     \<Rightarrow> string \<times> redactor" where
  "re_sub_fn f [] tail st = (tail, st)"
| "re_sub_fn f ((gap, m) # segs) tail st =
     (let r = f m st; out = re_sub_fn f segs tail (snd r)
      in (gap @ fst r @ fst out, snd out))"

text \<open>
  \<^verbatim>\<open>re.sub\<close> with a string as replacement. Before it looks for a match, the engine
  compiles the string as a template: the result is an exception, or the function that
  gives the text put in place of a match. A string without backslash stands for itself.
  When the first backslash is the last character, or stands before an ASCII letter other
  than a, b, f, g, n, r, t and v, the engine raises \<^verbatim>\<open>re.error\<close>. What it makes of any
  other template is the parameter \<open>other\<close>.
\<close>

definition backslash :: char where "backslash = CHR 0x5C"

fun after_backslash :: "string \<Rightarrow> string option" where
  "after_backslash [] = None"
| "after_backslash (c # cs) = (if c = backslash then Some cs else after_backslash cs)"

definition compile_template ::
  "(string \<Rightarrow> py_error + (string \<Rightarrow> string)) \<Rightarrow> string \<Rightarrow> py_error + (string \<Rightarrow> string)" where
  "compile_template other repl =
     (case after_backslash repl of
        None \<Rightarrow> Inr (\<lambda>m. repl)
      | Some [] \<Rightarrow> Inl Re_error
      | Some (c # cs) \<Rightarrow>
          if c \<in> set (lower_letters @ upper_letters) \<and> c \<notin> set ''abfgnrtv''
          then Inl Re_error else other repl)"

definition re_sub_str ::
  "(string \<Rightarrow> py_error + (string \<Rightarrow> string)) \<Rightarrow> scan \<Rightarrow> string \<Rightarrow> py_error + string" where
  "re_sub_str other sc repl =
     (case compile_template other repl of
        Inl err \<Rightarrow> Inl err
      | Inr expand \<Rightarrow> Inr (concat (map (\<lambda>(gap, m). gap @ expand m) (fst sc)) @ snd sc))"

text \<open>
  The keys of \<^verbatim>\<open>PATTERNS\<close>, in the order of the dictionary. The regular expressions
  themselves belong to the engine: in \<^verbatim>\<open>redact_patterns\<close> the engine is the parameter
  \<open>engine\<close>, which gives the scan of a text for the pattern of a name.
\<close>

definition pattern_names :: "string list" where
  "pattern_names = [''email'', ''phone_us'', ''phone_intl'', ''ssn'', ''credit_card'',
                    ''ip_address'', ''date_mdy'', ''date_dmy'']"

text \<open>
  \<^verbatim>\<open>_get_pattern_replacement\<close>: in random mode the counter of the pattern, zero when the
  pattern has none yet, is raised by one and numbers the placeholder.
\<close>

definition counter_of :: "redactor \<Rightarrow> string \<Rightarrow> nat" where
  "counter_of st pattern_type = (case map_of (random_counter st) pattern_type of None \<Rightarrow> 0 | Some c \<Rightarrow> c)"

definition placeholder :: "string \<Rightarrow> nat \<Rightarrow> string" where
  "placeholder pattern_type n = ''['' @ ascii_upper pattern_type @ ''-'' @ format_03d n @ '']''"

definition get_pattern_replacement ::
  "redactor \<Rightarrow> string \<Rightarrow> string \<Rightarrow> bool \<Rightarrow> string \<times> redactor" where
  "get_pattern_replacement st pattern_type match_text random_mode =
     (if random_mode then
        (let n = counter_of st pattern_type + 1
         in (placeholder pattern_type n,
             st\<lparr>random_counter := counter_set (random_counter st) pattern_type n\<rparr>))
      else (''['' @ ascii_upper pattern_type @ ''-REDACTED]'', st))"

text \<open>\<^verbatim>\<open>replace_func\<close>, the replacement function of \<^verbatim>\<open>redact_patterns\<close>, logs each match.\<close>

definition replace_func :: "string \<Rightarrow> bool \<Rightarrow> string \<Rightarrow> redactor \<Rightarrow> string \<times> redactor" where
  "replace_func pattern_name random_mode m st =
     (let r = get_pattern_replacement st pattern_name m random_mode
      in (fst r, (snd r)\<lparr>redaction_log := redaction_log (snd r) @ [Pattern_entry pattern_name m (fst r)]\<rparr>))"

fun redact_patterns_loop ::
  "(string \<Rightarrow> string \<Rightarrow> scan) \<Rightarrow> bool \<Rightarrow> string list \<Rightarrow> string \<times> redactor \<Rightarrow> string \<times> redactor" where
  "redact_patterns_loop engine random_mode [] s = s"
| "redact_patterns_loop engine random_mode (pattern_name # patterns) s =
     redact_patterns_loop engine random_mode patterns
       (if pattern_name \<in> set pattern_names then
          re_sub_fn (replace_func pattern_name random_mode)
            (fst (engine pattern_name (fst s))) (snd (engine pattern_name (fst s))) (snd s)
        else s)"

definition redact_patterns ::
  "(string \<Rightarrow> string \<Rightarrow> scan) \<Rightarrow> redactor \<Rightarrow> string \<Rightarrow> string list option \<Rightarrow> bool
     \<Rightarrow> string \<times> redactor" where
  "redact_patterns engine st text patterns random_mode =
     redact_patterns_loop engine random_mode
       (case patterns of None \<Rightarrow> pattern_names | Some ps \<Rightarrow> ps) (text, st)"

text \<open>
  \<^verbatim>\<open>redact_entities\<close>: for each entity in the order of the mapping, and for its original
  followed by its variations, empty terms skipped, every match of the term is replaced by
  the alias and logged with the term as \<^verbatim>\<open>mapped_from\<close>.
\<close>

definition replacer :: "string \<Rightarrow> string \<Rightarrow> string \<Rightarrow> redactor \<Rightarrow> string \<times> redactor" where
  "replacer als orig_term m st =
     (als, st\<lparr>redaction_log := redaction_log st @ [Entity_entry m als orig_term]\<rparr>)"

fun redact_terms ::
  "(char \<Rightarrow> bool) \<Rightarrow> (char \<Rightarrow> char \<Rightarrow> bool) \<Rightarrow> bool \<Rightarrow> string \<Rightarrow> string list \<Rightarrow> string \<times> redactor
     \<Rightarrow> string \<times> redactor" where
  "redact_terms word ci case_sensitive als [] s = s"
| "redact_terms word ci case_sensitive als (term # terms) s =
     redact_terms word ci case_sensitive als terms
       (if term = [] then s
        else re_sub_fn (replacer als term)
               (fst (word_scan word ci (\<not> case_sensitive) term (fst s)))
               (snd (word_scan word ci (\<not> case_sensitive) term (fst s))) (snd s))"

fun redact_entities_loop ::
  "(char \<Rightarrow> bool) \<Rightarrow> (char \<Rightarrow> char \<Rightarrow> bool) \<Rightarrow> bool \<Rightarrow> entity list \<Rightarrow> string \<times> redactor
     \<Rightarrow> string \<times> redactor" where
  "redact_entities_loop word ci case_sensitive [] s = s"
| "redact_entities_loop word ci case_sensitive (e # es) s =
     redact_entities_loop word ci case_sensitive es
       (redact_terms word ci case_sensitive (alias e) (original e # variations e) s)"

definition redact_entities ::
  "(char \<Rightarrow> bool) \<Rightarrow> (char \<Rightarrow> char \<Rightarrow> bool) \<Rightarrow> redactor \<Rightarrow> string \<Rightarrow> bool \<Rightarrow> string \<times> redactor" where
  "redact_entities word ci st text case_sensitive =
     redact_entities_loop word ci case_sensitive (entities (r_mapping st)) (text, st)"

text \<open>
  \<^verbatim>\<open>_generate_random_id\<close>: the prefix, a hyphen and eight characters chosen among the 36
  upper-case letters and digits. The random source is a parameter: \<open>draws j\<close> is the
  number drawn for character \<open>j\<close>, reduced to an index of the 36.
\<close>

definition generate_random_id :: "(nat \<Rightarrow> nat) \<Rightarrow> string \<Rightarrow> string" where
  "generate_random_id draws prefix =
     prefix @ ''-'' @ map (\<lambda>j. (upper_letters @ digits) ! (draws j mod 36)) [0..<8]"

text \<open>
  \<^verbatim>\<open>redact_with_random_ids\<close>: an entity string gets an identifier when it is not yet a
  key of the document mapping (the dictionary, kept in insertion order); \<open>rnd k\<close> supplies
  the draws of the identifier generated when the mapping has \<open>k\<close> keys. Each element of
  the list is substituted, with the identifier as replacement string, and logged. When the
  substitution raises, the exception leaves the function, the redactor being what the
  elements before have made it.
\<close>

fun random_ids_loop ::
  "(char \<Rightarrow> bool) \<Rightarrow> (char \<Rightarrow> char \<Rightarrow> bool) \<Rightarrow> (string \<Rightarrow> py_error + (string \<Rightarrow> string))
     \<Rightarrow> (nat \<Rightarrow> nat \<Rightarrow> nat) \<Rightarrow> string \<Rightarrow> string list
     \<Rightarrow> string \<times> (string \<times> string) list \<times> redactor
     \<Rightarrow> py_error \<times> redactor + string \<times> (string \<times> string) list \<times> redactor" where
  "random_ids_loop word ci other rnd entity_type [] s = Inr s"
| "random_ids_loop word ci other rnd entity_type (ent # ents) (result, document_mapping, st) =
     (let random_id = (case map_of document_mapping ent of
                         None \<Rightarrow> generate_random_id (rnd (length document_mapping)) entity_type
                       | Some r \<Rightarrow> r);
          document_mapping' = (case map_of document_mapping ent of
                                 None \<Rightarrow> document_mapping @ [(ent, random_id)]
                               | Some r \<Rightarrow> document_mapping)
      in case re_sub_str other (word_scan word ci True ent result) random_id of
           Inl err \<Rightarrow> Inl (err, st)
         | Inr result' \<Rightarrow>
             random_ids_loop word ci other rnd entity_type ents
               (result', document_mapping',
                st\<lparr>redaction_log := redaction_log st @ [Random_entry ent random_id]\<rparr>))"

definition redact_with_random_ids ::
  "(char \<Rightarrow> bool) \<Rightarrow> (char \<Rightarrow> char \<Rightarrow> bool) \<Rightarrow> (string \<Rightarrow> py_error + (string \<Rightarrow> string))
     \<Rightarrow> (nat \<Rightarrow> nat \<Rightarrow> nat) \<Rightarrow> redactor \<Rightarrow> string \<Rightarrow> string list \<Rightarrow> string
     \<Rightarrow> py_error \<times> redactor + string \<times> (string \<times> string) list \<times> redactor" where
  "redact_with_random_ids word ci other rnd st text ents entity_type =
     random_ids_loop word ci other rnd entity_type ents (text, [], st)"

text \<open>The redactor as the call leaves it, whether it returns or raises.\<close>

fun final_state ::
  "py_error \<times> redactor + string \<times> (string \<times> string) list \<times> redactor \<Rightarrow> redactor" where
  "final_state (Inl (err, st)) = st"
| "final_state (Inr (result, document_mapping, st)) = st"

text \<open>\<^verbatim>\<open>get_redaction_report\<close> and \<^verbatim>\<open>clear_log\<close>.\<close>

record report =
  total_redactions :: nat
  by_type :: "(string \<times> nat) list"
  details :: "log_entry list"

fun count_by_type :: "log_entry list \<Rightarrow> (string \<times> nat) list \<Rightarrow> (string \<times> nat) list" where
  "count_by_type [] bt = bt"
| "count_by_type (entry # entries) bt =
     count_by_type entries
       (counter_set bt (kind entry) ((case map_of bt (kind entry) of None \<Rightarrow> 0 | Some n \<Rightarrow> n) + 1))"

definition get_redaction_report :: "redactor \<Rightarrow> report" where
  "get_redaction_report st =
     \<lparr>total_redactions = length (redaction_log st),
      by_type = count_by_type (redaction_log st) [],
      details = redaction_log st\<rparr>"

definition clear_log :: "redactor \<Rightarrow> redactor" where
  "clear_log st = st\<lparr>redaction_log := [], random_counter := []\<rparr>"

text \<open>
  \<^verbatim>\<open>add_alias\<close> appends without any check; the dictionary it appends has no
  \<^verbatim>\<open>added\<close> key, and the field is left empty.
\<close>

definition add_alias ::
  "redactor \<Rightarrow> string \<Rightarrow> string \<Rightarrow> string \<Rightarrow> string list option \<Rightarrow> string \<Rightarrow> redactor" where
  "add_alias st orig als ety vs nts =
     st\<lparr>r_mapping := (r_mapping st)\<lparr>entities := entities (r_mapping st) @
        [\<lparr>original = orig, alias = als, type = ety, variations = or_empty vs, notes = nts,
          added = []\<rparr>]\<rparr>\<rparr>"

section \<open>Notions of the specification\<close>

text \<open>The entries of a log that come from the pattern named \<open>P\<close>.\<close>

fun is_pattern_entry :: "string \<Rightarrow> log_entry \<Rightarrow> bool" where
  "is_pattern_entry P (Pattern_entry pattern_name orig r) = (pattern_name = P)"
| "is_pattern_entry P (Entity_entry orig r mapped_from) = False"
| "is_pattern_entry P (Random_entry orig r) = False"

definition pattern_entries :: "string \<Rightarrow> log_entry list \<Rightarrow> log_entry list" where
  "pattern_entries P entries = filter (is_pattern_entry P) entries"

text \<open>
  One pass of random-mode redaction as the specification words it: match number \<open>i\<close> of
  the scan, counted from zero, is replaced by the placeholder numbered \<open>c + 1 + i\<close> and
  logged with it, \<open>c\<close> being the counter of the pattern before the pass; the counter
  ends as \<open>c\<close> plus the number of matches. A name that is no key of \<^verbatim>\<open>PATTERNS\<close> is
  passed over.
\<close>

definition numbered_pass ::
  "(string \<Rightarrow> string \<Rightarrow> scan) \<Rightarrow> string \<times> redactor \<Rightarrow> string \<Rightarrow> string \<times> redactor" where
  "numbered_pass engine s P =
     (let st = snd s; segs = fst (engine P (fst s)); tail = snd (engine P (fst s));
          c = counter_of st P
      in if P \<in> set pattern_names then
           (concat (map (\<lambda>(i, gap, m). gap @ placeholder P (c + 1 + i)) (enumerate 0 segs)) @ tail,
            st\<lparr>redaction_log := redaction_log st @
                  map (\<lambda>(i, gap, m). Pattern_entry P m (placeholder P (c + 1 + i))) (enumerate 0 segs),
               random_counter := (if segs = [] then random_counter st
                                  else counter_set (random_counter st) P (c + length segs))\<rparr>)
         else s)"

text \<open>
  The identifier that a document mapping gives an entity string, and the text with every
  match of an entity string, as a word and up to case, replaced by a string.
\<close>

definition id_of :: "(string \<times> string) list \<Rightarrow> string \<Rightarrow> string" where
  "id_of document_mapping ent = (case map_of document_mapping ent of None \<Rightarrow> [] | Some r \<Rightarrow> r)"

definition sub_all ::
  "(char \<Rightarrow> bool) \<Rightarrow> (char \<Rightarrow> char \<Rightarrow> bool) \<Rightarrow> string \<Rightarrow> string \<Rightarrow> string \<Rightarrow> string" where
  "sub_all word ci ent r text =
     concat (map (\<lambda>(gap, m). gap @ r) (fst (word_scan word ci True ent text)))
       @ snd (word_scan word ci True ent text)"

text \<open>
  Whole-word occurrences as the specification words them: \<open>T\<close> occurs at a place as a
  whole word when the text there equals \<open>T\<close> up to case and the occurrence is neither
  preceded nor followed by a word character, so that it is not part of a longer word.
  Occurrences are counted and replaced from left to right without overlap.
\<close>

definition whole_word_at ::
  "(char \<Rightarrow> bool) \<Rightarrow> (char \<Rightarrow> char \<Rightarrow> bool) \<Rightarrow> string \<Rightarrow> char option \<Rightarrow> string \<Rightarrow> bool" where
  "whole_word_at word ci T prev rest \<longleftrightarrow>
     length T \<le> length rest \<and> list_all2 ci T (take (length T) rest)
     \<and> \<not> word_before word prev \<and> \<not> word_after word (drop (length T) rest)"

definition whole_word_scan ::
  "(char \<Rightarrow> bool) \<Rightarrow> (char \<Rightarrow> char \<Rightarrow> bool) \<Rightarrow> string \<Rightarrow> string \<Rightarrow> scan" where
  "whole_word_scan word ci T text = scan_matches (whole_word_at word ci T) (length T) None text"

definition occurrences ::
  "(char \<Rightarrow> bool) \<Rightarrow> (char \<Rightarrow> char \<Rightarrow> bool) \<Rightarrow> string \<Rightarrow> string \<Rightarrow> nat" where
  "occurrences word ci T text = length (fst (whole_word_scan word ci T text))"

definition replace_occurrences ::
  "(char \<Rightarrow> bool) \<Rightarrow> (char \<Rightarrow> char \<Rightarrow> bool) \<Rightarrow> string \<Rightarrow> string \<Rightarrow> string \<Rightarrow> string" where
  "replace_occurrences word ci T A text =
     concat (map (\<lambda>(gap, m). gap @ A) (fst (whole_word_scan word ci T text)))
       @ snd (whole_word_scan word ci T text)"

section \<open>Sequences of store calls\<close>

datatype store_call =
    Add string string string "string list option" string string
  | Remove string

fun call :: "(string \<Rightarrow> string) \<Rightarrow> mapping \<Rightarrow> store_call \<Rightarrow> mapping" where
  "call lower m (Add orig als ety vs nts now) = snd (add_entity lower m orig als ety vs nts now)"
| "call lower m (Remove orig) = snd (remove_entity lower m orig)"

definition run_calls :: "(string \<Rightarrow> string) \<Rightarrow> mapping \<Rightarrow> store_call list \<Rightarrow> mapping" where
  "run_calls lower m calls = foldl (call lower) m calls"

text \<open>The uniqueness invariant of the entity list: no two lowered originals and no two
  lowered aliases are equal.\<close>

definition unique_store :: "(string \<Rightarrow> string) \<Rightarrow> entity list \<Rightarrow> bool" where
  "unique_store lower es \<longleftrightarrow>
     distinct (map (\<lambda>e. lower (original e)) es) \<and> distinct (map (\<lambda>e. lower (alias e)) es)"

section \<open>Example stores\<close>

definition store1 :: mapping where
  "store1 = \<lparr>version = ''1.0'', created = ''t0'', updated = ''t0'',
     entities = [\<lparr>original = ''John Smith'', alias = ''Person_A'', type = ''person'',
                  variations = [''Johnny''], notes = [], added = ''t1''\<rparr>]\<rparr>"

definition calls1 :: "store_call list" where
  "calls1 = [Add ''John Smith'' ''Person_A'' ''person'' None [] ''t1'',
             Add ''JOHN SMITH'' ''Person_B'' ''person'' None [] ''t2'',
             Add ''Acme Corp'' ''Org_1'' ''organization'' None [] ''t3'',
             Remove ''john smith'',
             Add ''Jane Roe'' ''org_1'' ''person'' None [] ''t4'',
             Add ''Jane Roe'' ''Person_A'' ''person'' None [] ''t5'']"

definition store2 :: mapping where
  "store2 = \<lparr>version = ''1.0'', created = ''t0'', updated = ''t0'',
     entities = [\<lparr>original = ''Acme Corporation'', alias = ''Org_1'', type = ''organization'',
                  variations = [''Acme'', ''ACME Corp''], notes = [], added = ''t1''\<rparr>,
                 \<lparr>original = ''Acme'', alias = ''Org_2'', type = ''organization'',
                  variations = [], notes = [], added = ''t2''\<rparr>]\<rparr>"

definition store3 :: mapping where
  "store3 = \<lparr>version = ''1.0'', created = ''t0'', updated = ''t0'',
     entities = [\<lparr>original = ''John Smith'', alias = ''Person_A'', type = ''person'',
                  variations = [''Johnny''], notes = [], added = ''t1''\<rparr>,
                 \<lparr>original = ''Jane Roe'', alias = ''Person_B'', type = ''person'',
                  variations = [], notes = [], added = ''t2''\<rparr>]\<rparr>"

text \<open>
  Keywords of an \<^verbatim>\<open>update_entity\<close> call: an alias that collides with the alias of the
  other entity, a value that is no string for the notes, and two keys outside the
  whitelist.
\<close>

definition kwargs3 :: "(string \<times> pyval) list" where
  "kwargs3 = [(''alias'', PStr ''person_b''), (''added'', PStr ''t9''), (''notes'', PInt 7),
              (''secret'', PStr ''x'')]"

definition store4 :: mapping where
  "store4 = \<lparr>version = ''1.0'', created = ''t0'', updated = ''t0'',
     entities = [\<lparr>original = ''Acme Corp'', alias = ''Org_1'', type = ''organization'',
                  variations = [], notes = [], added = ''t1''\<rparr>,
                 \<lparr>original = ''Beta Ltd'', alias = ''Org_9'', type = ''organization'',
                  variations = [], notes = [], added = ''t2''\<rparr>]\<rparr>"

definition incoming4 :: "entity list" where
  "incoming4 = [\<lparr>original = ''Acme Corp'', alias = ''Org_9'', type = ''organization'',
                  variations = [], notes = [], added = ''t3''\<rparr>]"

definition store7 :: mapping where
  "store7 = \<lparr>version = ''1.0'', created = ''t0'', updated = ''t0'',
     entities = [\<lparr>original = ''Robert Jones'', alias = ''Person_A'', type = ''person'',
                  variations = [''Bob ''], notes = [], added = ''t1''\<rparr>]\<rparr>"

definition clock1 :: "nat \<Rightarrow> string" where
  "clock1 k = ''t2''"

definition store7b :: mapping where
  "store7b = \<lparr>version = ''1.0'', created = ''t0'', updated = ''t0'',
     entities = [\<lparr>original = ''Robert Jones'', alias = ''Person_A'', type = ''person'',
                  variations = [''Bob'', ''R. Jones''], notes = ''met in May, 2020'', added = ''t1''\<rparr>,
                 \<lparr>original = ''Acme Corp'', alias = ''Org_1'', type = ''organization'',
                  variations = [], notes = [], added = ''t1''\<rparr>]\<rparr>"

section \<open>Example redactors\<close>

text \<open>
  \<open>engine1\<close> stands for the regular expression engine on two texts: it finds the two
  addresses of the first and the one address of the second.
\<close>

definition st0 :: redactor where
  "st0 = \<lparr>r_mapping = empty_mapping ''t0'', redaction_log = [], random_counter = []\<rparr>"

definition engine1 :: "string \<Rightarrow> string \<Rightarrow> scan" where
  "engine1 pattern_name text =
     (if pattern_name = ''email'' \<and> text = ''Reach me at a@x.com or b@x.com''
      then ([(''Reach me at '', ''a@x.com''), ('' or '', ''b@x.com'')], [])
      else if pattern_name = ''email'' \<and> text = ''Also c@y.org''
      then ([(''Also '', ''c@y.org'')], [])
      else ([], text))"

definition text1 :: string where
  "text1 = ''Reach me at a@x.com or b@x.com''"

text \<open>
  A text of a thousand addresses, each after a space, and the engine on it: the pattern
  \<^verbatim>\<open>email\<close> finds every one of them.
\<close>

definition text1000 :: string where
  "text1000 = concat (replicate 1000 '' a@x.com'')"

definition engine1000 :: "string \<Rightarrow> string \<Rightarrow> scan" where
  "engine1000 pattern_name text =
     (if pattern_name = ''email'' \<and> text = text1000
      then (replicate 1000 ('' '', ''a@x.com''), [])
      else ([], text))"

text \<open>A source of random draws: draw \<open>j\<close> of the identifier number \<open>k\<close>.\<close>

definition rnd1 :: "nat \<Rightarrow> nat \<Rightarrow> nat" where
  "rnd1 k j = k + j"

text \<open>
  The templates of the examples hold no backslash or raise, so what the engine makes of
  the others plays no part in them.
\<close>

definition other1 :: "string \<Rightarrow> py_error + (string \<Rightarrow> string)" where
  "other1 repl = Inr (\<lambda>m. repl)"

text \<open>A prefix that is a backslash followed by the letter q.\<close>

definition prefix_q :: string where
  "prefix_q = [backslash, CHR ''q'']"

definition st3 :: redactor where
  "st3 = add_alias st0 ''Acme Inc.'' ''Org_A'' ''organization'' None []"

definition text3 :: string where
  "text3 = ''Contact Acme Inc. today''"

section \<open>Evaluation rules for characters\<close>

lemmas char_defs = ascii_lower_def ascii_lower_char_def upper_letters_def lower_letters_def

section \<open>Adding an entity\<close>

lemma has_duplicate_iff:
  "has_duplicate lower orig als es \<longleftrightarrow>
     (\<exists>e \<in> set es. lower (original e) = lower orig \<or> lower (alias e) = lower als)"
  by (induction es) auto

text \<open>
  C1. \<^verbatim>\<open>add_entity\<close> returns false and leaves the whole mapping document as it is when
  an existing entity has the given original, or one has the given alias, up to case;
  otherwise it returns true and the entity list is the old one followed by one new entity
  with the given fields. A second call lower with the same arguments returns false and does not
  change the number of entities.
\<close>

theorem add_entity_duplicate_conflict:
  "add_entity lower m orig als ety vs nts now =
     (if (\<exists>e \<in> set (entities m). lower (original e) = lower orig)
           \<or> (\<exists>e \<in> set (entities m). lower (alias e) = lower als)
      then (False, m)
      else (True, m\<lparr>entities := entities m @
              [\<lparr>original = orig, alias = als, type = ety,
                variations = (case vs of None \<Rightarrow> [] | Some l \<Rightarrow> l),
                notes = nts, added = now\<rparr>]\<rparr>))
   \<and> fst (add_entity lower (snd (add_entity lower m orig als ety vs nts now)) orig als ety vs nts now') = False
   \<and> length (entities (snd (add_entity lower (snd (add_entity lower m orig als ety vs nts now))
                                orig als ety vs nts now')))
       = length (entities (snd (add_entity lower m orig als ety vs nts now)))"
  by (auto simp: add_entity_def has_duplicate_iff new_entity_def or_empty_def)

theorem add_entity_duplicate_conflict_witness:
  "add_entity ascii_lower store1 ''JOHN SMITH'' ''Person_B'' ''person'' None [] ''t2'' = (False, store1)
   \<and> add_entity ascii_lower store1 ''Jane Roe'' ''person_a'' ''person'' None [] ''t2'' = (False, store1)
   \<and> add_entity ascii_lower store1 ''Jane Roe'' ''Person_B'' ''person'' (Some [''JR'']) ''n'' ''t2'' =
       (True, store1\<lparr>entities := entities store1 @
          [\<lparr>original = ''Jane Roe'', alias = ''Person_B'', type = ''person'',
            variations = [''JR''], notes = ''n'', added = ''t2''\<rparr>]\<rparr>)"
  using add_entity_duplicate_conflict [of ascii_lower store1 "''JOHN SMITH''" "''Person_B''" "''person''" None "[]" "''t2''"]
    add_entity_duplicate_conflict [of ascii_lower store1 "''Jane Roe''" "''person_a''" "''person''" None "[]" "''t2''"]
    add_entity_duplicate_conflict [of ascii_lower store1 "''Jane Roe''" "''Person_B''" "''person''" "Some [''JR'']" "''n''" "''t2''"]
  by (simp add: store1_def char_defs)


section \<open>The uniqueness invariant\<close>

lemma remove_first_split:
  "remove_first lower orig es = Some es' \<Longrightarrow> \<exists>xs e ys. es = xs @ e # ys \<and> es' = xs @ ys"
proof (induction es arbitrary: es')
  case Nil
  then show ?case by simp
next
  case (Cons a es)
  show ?case
  proof (cases "lower (original a) = lower orig")
    case True
    with Cons.prems have "es' = es" by simp
    then have "a # es = [] @ a # es \<and> es' = [] @ es" by simp
    then show ?thesis by blast
  next
    case False
    with Cons.prems obtain r where r: "remove_first lower orig es = Some r" and es': "es' = a # r"
      by auto
    from Cons.IH [OF r] obtain xs e ys where "es = xs @ e # ys" "r = xs @ ys" by blast
    with es' have "a # es = (a # xs) @ e # ys \<and> es' = (a # xs) @ ys" by simp
    then show ?thesis by blast
  qed
qed

lemma unique_store_add:
  "unique_store lower (entities m) \<Longrightarrow> unique_store lower (entities (snd (add_entity lower m orig als ety vs nts now)))"
  by (auto simp: add_entity_def has_duplicate_iff unique_store_def new_entity_def)

lemma unique_store_remove:
  assumes "unique_store lower (entities m)"
  shows "unique_store lower (entities (snd (remove_entity lower m orig)))"
proof (cases "remove_first lower orig (entities m)")
  case None
  with assms show ?thesis by (simp add: remove_entity_def)
next
  case (Some es')
  from remove_first_split [OF Some] obtain xs e ys
    where "entities m = xs @ e # ys" "es' = xs @ ys" by blast
  with assms have "unique_store lower es'" by (auto simp: unique_store_def)
  with Some show ?thesis by (simp add: remove_entity_def)
qed

lemma unique_store_call: "unique_store lower (entities m) \<Longrightarrow> unique_store lower (entities (call lower m c))"
  by (cases c) (simp_all add: unique_store_add unique_store_remove)

lemma unique_store_run:
  "unique_store lower (entities m) \<Longrightarrow> unique_store lower (entities (run_calls lower m calls))"
  unfolding run_calls_def
  by (induction calls arbitrary: m) (simp_all add: unique_store_call)

text \<open>
  C2. After any sequence of \<^verbatim>\<open>add_entity\<close> and \<^verbatim>\<open>remove_entity\<close> calls on an empty
  store, two entities at different positions have different originals and different
  aliases, compared up to case.
\<close>

theorem uniqueness_preserved:
  "\<forall>i < length (entities (run_calls lower (empty_mapping now) calls)).
   \<forall>j < length (entities (run_calls lower (empty_mapping now) calls)).
     i \<noteq> j \<longrightarrow>
       lower (original (entities (run_calls lower (empty_mapping now) calls) ! i))
         \<noteq> lower (original (entities (run_calls lower (empty_mapping now) calls) ! j))
     \<and> lower (alias (entities (run_calls lower (empty_mapping now) calls) ! i))
         \<noteq> lower (alias (entities (run_calls lower (empty_mapping now) calls) ! j))"
proof -
  let ?es = "entities (run_calls lower (empty_mapping now) calls)"
  have "unique_store lower (entities (empty_mapping now))"
    by (simp add: empty_mapping_def unique_store_def)
  then have u: "unique_store lower ?es" by (rule unique_store_run)
  show ?thesis
  proof (intro allI impI)
    fix i j assume ij: "i < length ?es" "j < length ?es" "i \<noteq> j"
    from u have d1: "distinct (map (\<lambda>e. lower (original e)) ?es)"
      and d2: "distinct (map (\<lambda>e. lower (alias e)) ?es)" by (simp_all add: unique_store_def)
    from d1 ij have "map (\<lambda>e. lower (original e)) ?es ! i \<noteq> map (\<lambda>e. lower (original e)) ?es ! j"
      by (simp add: nth_eq_iff_index_eq del: nth_map)
    moreover from d2 ij have "map (\<lambda>e. lower (alias e)) ?es ! i \<noteq> map (\<lambda>e. lower (alias e)) ?es ! j"
      by (simp add: nth_eq_iff_index_eq del: nth_map)
    ultimately show "lower (original (?es ! i)) \<noteq> lower (original (?es ! j))
        \<and> lower (alias (?es ! i)) \<noteq> lower (alias (?es ! j))"
      using ij by simp
  qed
qed

lemma run_calls1:
  "entities (run_calls ascii_lower (empty_mapping ''t0'') calls1) =
     [\<lparr>original = ''Acme Corp'', alias = ''Org_1'', type = ''organization'', variations = [],
        notes = [], added = ''t3''\<rparr>,
      \<lparr>original = ''Jane Roe'', alias = ''Person_A'', type = ''person'', variations = [],
        notes = [], added = ''t5''\<rparr>]"
  by (simp add: run_calls_def calls1_def empty_mapping_def add_entity_def remove_entity_def
      new_entity_def or_empty_def char_defs)

theorem uniqueness_preserved_witness:
  "length (entities (run_calls ascii_lower (empty_mapping ''t0'') calls1)) = 2
   \<and> ascii_lower (original (entities (run_calls ascii_lower (empty_mapping ''t0'') calls1) ! 0))
        \<noteq> ascii_lower (original (entities (run_calls ascii_lower (empty_mapping ''t0'') calls1) ! 1))
   \<and> ascii_lower (alias (entities (run_calls ascii_lower (empty_mapping ''t0'') calls1) ! 0))
        \<noteq> ascii_lower (alias (entities (run_calls ascii_lower (empty_mapping ''t0'') calls1) ! 1))"
  using uniqueness_preserved [of ascii_lower "''t0''" calls1, rule_format, of 0 1] by (simp add: run_calls1)

section \<open>Looking an entity up\<close>

lemma has_variation_iff: "has_variation lower q vs \<longleftrightarrow> (\<exists>v \<in> set vs. lower v = lower q)"
  by (induction vs) auto

lemma get_entity_loop_find:
  "get_entity_loop lower es q =
     find (\<lambda>e. lower (original e) = lower q \<or> (\<exists>v \<in> set (variations e). lower v = lower q)) es"
  by (induction es) (auto simp: has_variation_iff)

text \<open>
  C5. \<^verbatim>\<open>get_entity\<close> returns the first entity of the list whose original, or one of whose
  variations, equals the query up to case; it returns nothing only when no entity matches,
  so a query equal to a variation finds an entity; and \<^verbatim>\<open>get_alias\<close> is the alias of the
  entity \<^verbatim>\<open>get_entity\<close> returns.
\<close>

theorem get_entity_first_match:
  "get_entity lower m q =
     find (\<lambda>e. lower (original e) = lower q \<or> (\<exists>v \<in> set (variations e). lower v = lower q))
       (entities m)
   \<and> (get_entity lower m q = None \<longleftrightarrow>
        \<not> (\<exists>e \<in> set (entities m).
              lower (original e) = lower q \<or> (\<exists>v \<in> set (variations e). lower v = lower q)))
   \<and> get_alias lower m q = map_option alias (get_entity lower m q)"
  by (auto simp: get_entity_def get_alias_def get_entity_loop_find find_None_iff split: option.splits)

theorem get_entity_first_match_witness:
  "get_entity ascii_lower store2 ''acme corp'' = Some (entities store2 ! 0)
   \<and> get_entity ascii_lower store2 ''ACME'' = Some (entities store2 ! 0)
   \<and> get_alias ascii_lower store2 ''ACME'' = Some ''Org_1''
   \<and> get_entity ascii_lower store2 ''Beta'' = None
   \<and> get_alias ascii_lower store2 ''Beta'' = None"
  using get_entity_first_match [of ascii_lower store2 "''acme corp''"] get_entity_first_match [of ascii_lower store2 "''ACME''"]
    get_entity_first_match [of ascii_lower store2 "''Beta''"]
  by (simp add: store2_def char_defs)

section \<open>Updating an entity\<close>

lemma get_entity_ref_less: "get_entity_ref lower es q = Some i \<Longrightarrow> i < length es"
  by (induction es arbitrary: i) (auto split: if_splits)

lemma get_entity_ref_loop:
  "get_entity_loop lower es q = map_option (\<lambda>i. es ! i) (get_entity_ref lower es q)"
  by (induction es) (auto simp: option.map_comp comp_def)

lemma dict_set_keys: "k \<in> fst ` set d \<Longrightarrow> map fst (dict_set d k v) = map fst d"
proof (induction d)
  case Nil
  then show ?case by simp
next
  case (Cons kv d)
  obtain k' v' where kv: "kv = (k', v')" by (cases kv)
  show ?case
  proof (cases "k' = k")
    case True
    then show ?thesis by (simp add: kv)
  next
    case False
    with Cons.prems kv have "k \<in> fst ` set d" by auto
    from Cons.IH [OF this] False show ?thesis by (simp add: kv)
  qed
qed

lemma map_of_dict_set: "map_of (dict_set d k v) k' = (if k' = k then Some v else map_of d k')"
  by (induction d) auto

lemma updated_value_Cons:
  "updated_value ((f, v) # kwargs) k old =
     updated_value kwargs k (if f \<in> set allowed_fields \<and> f = k then Some v else old)"
  by (auto simp: updated_value_def map_add_def split: option.splits)

lemma apply_kwargs_keys:
  "set allowed_fields \<subseteq> fst ` set d \<Longrightarrow> map fst (apply_kwargs d kwargs) = map fst d"
proof (induction kwargs arbitrary: d)
  case Nil
  then show ?case by simp
next
  case (Cons kw kwargs)
  obtain field val where kw: "kw = (field, val)" by (cases kw)
  show ?case
  proof (cases "field \<in> set allowed_fields")
    case True
    with Cons.prems have in_d: "field \<in> fst ` set d" by blast
    have keys: "map fst (dict_set d field val) = map fst d" by (rule dict_set_keys [OF in_d])
    then have "fst ` set (dict_set d field val) = fst ` set d"
      by (metis list.set_map)
    with Cons.prems have "set allowed_fields \<subseteq> fst ` set (dict_set d field val)" by simp
    from Cons.IH [OF this] keys True show ?thesis by (simp add: kw)
  next
    case False
    with Cons.IH [OF Cons.prems] show ?thesis by (simp add: kw)
  qed
qed

lemma apply_kwargs_value:
  "map_of (apply_kwargs d kwargs) k = updated_value kwargs k (map_of d k)"
proof (induction kwargs arbitrary: d)
  case Nil
  then show ?case by (simp add: updated_value_def)
next
  case (Cons kw kwargs)
  obtain field val where kw: "kw = (field, val)" by (cases kw)
  show ?case
    by (auto simp: kw Cons.IH updated_value_Cons map_of_dict_set)
qed

lemma to_dict_keys: "set allowed_fields \<subseteq> fst ` set (to_dict e)"
  by (simp add: allowed_fields_def to_dict_def)

text \<open>
  C8. A call whose keywords include \<^verbatim>\<open>original\<close> or \<^verbatim>\<open>self\<close> raises \<^verbatim>\<open>TypeError\<close> and
  leaves the document as it is. Any other call returns false, the document unchanged, when
  no entity matches. When the entity at position \<open>i\<close> is the match it returns true: the
  head of the document and every other entity are unchanged, the matched entity keeps its
  keys in their order, and under each key it holds the value given last for it when the
  key is one of alias, type, variations and notes, and its old value otherwise. A keyword
  outside the whitelist changes nothing, and no check of the new alias against the other
  entities stands in the way of success.
\<close>

theorem update_entity_frame:
  "(''self'' \<in> fst ` set kwargs \<or> ''original'' \<in> fst ` set kwargs \<longrightarrow>
      update_entity lower m orig kwargs = (Inl TypeError, to_dict_mapping m))
   \<and> (''self'' \<notin> fst ` set kwargs \<and> ''original'' \<notin> fst ` set kwargs
        \<and> get_entity lower m orig = None \<longrightarrow>
      update_entity lower m orig kwargs = (Inr False, to_dict_mapping m))
   \<and> (\<forall>i. ''self'' \<notin> fst ` set kwargs \<and> ''original'' \<notin> fst ` set kwargs
        \<and> get_entity_ref lower (entities m) orig = Some i \<longrightarrow>
        i < length (entities m)
        \<and> get_entity lower m orig = Some (entities m ! i)
        \<and> fst (update_entity lower m orig kwargs) = Inr True
        \<and> d_version (snd (update_entity lower m orig kwargs)) = version m
        \<and> d_created (snd (update_entity lower m orig kwargs)) = created m
        \<and> d_updated (snd (update_entity lower m orig kwargs)) = updated m
        \<and> length (d_entities (snd (update_entity lower m orig kwargs))) = length (entities m)
        \<and> (\<forall>j < length (entities m). j \<noteq> i \<longrightarrow>
              d_entities (snd (update_entity lower m orig kwargs)) ! j = to_dict (entities m ! j))
        \<and> map fst (d_entities (snd (update_entity lower m orig kwargs)) ! i)
            = map fst (to_dict (entities m ! i))
        \<and> (\<forall>k. map_of (d_entities (snd (update_entity lower m orig kwargs)) ! i) k
                 = updated_value kwargs k (map_of (to_dict (entities m ! i)) k)))"
proof (intro conjI allI impI)
  assume "''self'' \<in> fst ` set kwargs \<or> ''original'' \<in> fst ` set kwargs"
  then show "update_entity lower m orig kwargs = (Inl TypeError, to_dict_mapping m)"
    by (simp add: update_entity_def)
next
  assume a: "''self'' \<notin> fst ` set kwargs \<and> ''original'' \<notin> fst ` set kwargs
        \<and> get_entity lower m orig = None"
  then have "get_entity_ref lower (entities m) orig = None"
    by (simp add: get_entity_def get_entity_ref_loop)
  with a show "update_entity lower m orig kwargs = (Inr False, to_dict_mapping m)"
    by (simp add: update_entity_def)
next
  fix i
  assume a: "''self'' \<notin> fst ` set kwargs \<and> ''original'' \<notin> fst ` set kwargs
        \<and> get_entity_ref lower (entities m) orig = Some i"
  then have i: "i < length (entities m)" using get_entity_ref_less by blast
  from a have u: "update_entity lower m orig kwargs =
      (Inr True, (to_dict_mapping m)\<lparr>d_entities :=
         (map to_dict (entities m))[i := apply_kwargs (to_dict (entities m ! i)) kwargs]\<rparr>)"
    by (simp add: update_entity_def)
  show "i < length (entities m)" by (rule i)
  show "get_entity lower m orig = Some (entities m ! i)"
    using a by (simp add: get_entity_def get_entity_ref_loop)
  show "fst (update_entity lower m orig kwargs) = Inr True" by (simp add: u)
  show "d_version (snd (update_entity lower m orig kwargs)) = version m"
    by (simp add: u to_dict_mapping_def)
  show "d_created (snd (update_entity lower m orig kwargs)) = created m"
    by (simp add: u to_dict_mapping_def)
  show "d_updated (snd (update_entity lower m orig kwargs)) = updated m"
    by (simp add: u to_dict_mapping_def)
  show "length (d_entities (snd (update_entity lower m orig kwargs))) = length (entities m)"
    by (simp add: u)
  show "map fst (d_entities (snd (update_entity lower m orig kwargs)) ! i)
            = map fst (to_dict (entities m ! i))"
    using i by (simp add: u apply_kwargs_keys to_dict_keys)
  show "\<And>k. map_of (d_entities (snd (update_entity lower m orig kwargs)) ! i) k
                 = updated_value kwargs k (map_of (to_dict (entities m ! i)) k)"
    using i by (simp add: u apply_kwargs_value)
  show "\<And>j. j < length (entities m) \<Longrightarrow> j \<noteq> i \<Longrightarrow>
      d_entities (snd (update_entity lower m orig kwargs)) ! j = to_dict (entities m ! j)"
    by (simp add: u)
qed

text \<open>
  The call \<^verbatim>\<open>update_entity('Nobody', original='Somebody')\<close> on a store in which nothing
  matches \<^verbatim>\<open>Nobody\<close>: it does not return false, it raises \<^verbatim>\<open>TypeError\<close>.
\<close>

theorem update_entity_raises_type_error:
  "get_entity ascii_lower store3 ''Nobody'' = None
   \<and> update_entity ascii_lower store3 ''Nobody'' [(''original'', PStr ''Somebody'')]
       = (Inl TypeError, to_dict_mapping store3)
   \<and> fst (update_entity ascii_lower store3 ''Nobody'' [(''original'', PStr ''Somebody'')])
       \<noteq> Inr False"
  by (simp add: update_entity_def get_entity_def store3_def char_defs)

theorem update_entity_frame_witness:
  "get_entity_ref ascii_lower (entities store3) ''johnny'' = Some 0
   \<and> update_entity ascii_lower store3 ''johnny'' kwargs3 =
       (Inr True,
        \<lparr>d_version = ''1.0'', d_created = ''t0'', d_updated = ''t0'',
         d_entities =
           [[(''original'', PStr ''John Smith''), (''alias'', PStr ''person_b''),
             (''type'', PStr ''person''), (''variations'', PList [PStr ''Johnny'']),
             (''notes'', PInt 7), (''added'', PStr ''t1'')],
            to_dict (entities store3 ! 1)]\<rparr>)
   \<and> map_of (d_entities (snd (update_entity ascii_lower store3 ''johnny'' kwargs3)) ! 0) ''alias''
       = Some (PStr ''person_b'')
   \<and> map_of (d_entities (snd (update_entity ascii_lower store3 ''johnny'' kwargs3)) ! 0) ''added''
       = Some (PStr ''t1'')
   \<and> map_of (d_entities (snd (update_entity ascii_lower store3 ''johnny'' kwargs3)) ! 0) ''secret''
       = None
   \<and> d_entities (snd (update_entity ascii_lower store3 ''johnny'' kwargs3)) ! 1
       = to_dict (entities store3 ! 1)
   \<and> update_entity ascii_lower store3 ''Nobody'' kwargs3 = (Inr False, to_dict_mapping store3)
   \<and> update_entity ascii_lower store3 ''johnny'' ((''self'', PNone) # kwargs3)
       = (Inl TypeError, to_dict_mapping store3)"
proof -
  have r: "get_entity_ref ascii_lower (entities store3) ''johnny'' = Some 0"
    by (simp add: store3_def char_defs)
  have n: "get_entity ascii_lower store3 ''Nobody'' = None"
    by (simp add: get_entity_def store3_def char_defs)
  have k: "''self'' \<notin> fst ` set kwargs3 \<and> ''original'' \<notin> fst ` set kwargs3"
    by (simp add: kwargs3_def)
  have u: "update_entity ascii_lower store3 ''johnny'' kwargs3 =
       (Inr True,
        \<lparr>d_version = ''1.0'', d_created = ''t0'', d_updated = ''t0'',
         d_entities =
           [[(''original'', PStr ''John Smith''), (''alias'', PStr ''person_b''),
             (''type'', PStr ''person''), (''variations'', PList [PStr ''Johnny'']),
             (''notes'', PInt 7), (''added'', PStr ''t1'')],
            to_dict (entities store3 ! 1)]\<rparr>)"
    by (simp add: update_entity_def r k)
       (simp add: store3_def kwargs3_def to_dict_mapping_def to_dict_def allowed_fields_def)
  note f = update_entity_frame [of kwargs3 ascii_lower store3 "''johnny''"]
  from f r k have v: "\<And>key. map_of (d_entities (snd (update_entity ascii_lower store3 ''johnny'' kwargs3)) ! 0) key
       = updated_value kwargs3 key (map_of (to_dict (entities store3 ! 0)) key)"
    by blast
  from f r k have o: "d_entities (snd (update_entity ascii_lower store3 ''johnny'' kwargs3)) ! 1
       = to_dict (entities store3 ! 1)"
    by (simp add: store3_def)
  from update_entity_frame [of kwargs3 ascii_lower store3 "''Nobody''"] n k
  have nb: "update_entity ascii_lower store3 ''Nobody'' kwargs3 = (Inr False, to_dict_mapping store3)"
    by blast
  from update_entity_frame [of "(''self'', PNone) # kwargs3" ascii_lower store3 "''johnny''"]
  have te: "update_entity ascii_lower store3 ''johnny'' ((''self'', PNone) # kwargs3)
       = (Inl TypeError, to_dict_mapping store3)"
    by simp
  have v1: "map_of (d_entities (snd (update_entity ascii_lower store3 ''johnny'' kwargs3)) ! 0) ''alias''
       = Some (PStr ''person_b'')"
    by (simp add: v) (simp add: updated_value_def allowed_fields_def kwargs3_def)
  have v2: "map_of (d_entities (snd (update_entity ascii_lower store3 ''johnny'' kwargs3)) ! 0) ''added''
       = Some (PStr ''t1'')"
    by (simp add: v) (simp add: updated_value_def allowed_fields_def store3_def to_dict_def)
  have v3: "map_of (d_entities (snd (update_entity ascii_lower store3 ''johnny'' kwargs3)) ! 0) ''secret''
       = None"
    by (simp add: v) (simp add: updated_value_def allowed_fields_def store3_def to_dict_def)
  from r u v1 v2 v3 o nb te show ?thesis by (intro conjI)
qed

section \<open>Validation after adding an entity with an empty field\<close>

lemma missing_fields_append:
  "missing_fields i (es @ [e]) =
     missing_fields i es @ (if original e = [] then [Missing_original (i + length es)] else [])
       @ (if alias e = [] then [Missing_alias (i + length es)] else [])"
  by (induction es arbitrary: i) auto

text \<open>
  C10. When nothing collides, \<^verbatim>\<open>add_entity\<close> with an empty original or an empty alias
  returns true and appends the entity; \<^verbatim>\<open>validate\<close> on the resulting store is not valid
  and reports the missing original, or the missing alias, of the entity just appended.
\<close>

theorem add_entity_accepts_empty:
  assumes "\<not> (\<exists>e \<in> set (entities m). lower (original e) = lower orig \<or> lower (alias e) = lower als)"
    and "orig = [] \<or> als = []"
  shows "add_entity lower m orig als ety vs nts now =
      (True, m\<lparr>entities := entities m @ [new_entity orig als ety vs nts now]\<rparr>)
    \<and> valid (validate lower (snd (add_entity lower m orig als ety vs nts now))) = False
    \<and> (orig = [] \<longrightarrow> Missing_original (length (entities m))
          \<in> set (issues (validate lower (snd (add_entity lower m orig als ety vs nts now)))))
    \<and> (als = [] \<longrightarrow> Missing_alias (length (entities m))
          \<in> set (issues (validate lower (snd (add_entity lower m orig als ety vs nts now)))))"
  using assms
  by (auto simp: add_entity_def has_duplicate_iff validate_def validate_issues_def Let_def
      missing_fields_append new_entity_def)

theorem add_entity_accepts_empty_witness:
  "add_entity ascii_lower store1 [] ''Person_X'' ''person'' None [] ''t2'' =
     (True, store1\<lparr>entities := entities store1 @
        [\<lparr>original = [], alias = ''Person_X'', type = ''person'', variations = [], notes = [],
          added = ''t2''\<rparr>]\<rparr>)
   \<and> valid (validate ascii_lower (snd (add_entity ascii_lower store1 [] ''Person_X'' ''person'' None [] ''t2''))) = False
   \<and> Missing_original 1
        \<in> set (issues (validate ascii_lower (snd (add_entity ascii_lower store1 [] ''Person_X'' ''person'' None [] ''t2''))))"
proof -
  have h1: "\<not> (\<exists>e \<in> set (entities store1).
      ascii_lower (original e) = ascii_lower [] \<or> ascii_lower (alias e) = ascii_lower ''Person_X'')"
    by (simp add: store1_def char_defs)
  have h2: "([] :: string) = [] \<or> ''Person_X'' = []" by simp
  have len: "length (entities store1) = 1" by (simp add: store1_def)
  from add_entity_accepts_empty [OF h1 h2, of "''person''" None "[]" "''t2''"]
  show ?thesis by (auto simp: new_entity_def or_empty_def len)
qed

section \<open>Merging with the overwrite strategy\<close>

text \<open>
  C4. The store holds Acme Corp under the alias Org_1 and Beta Ltd under Org_9, and is
  valid; the incoming document holds Acme Corp under Org_9. Under \<^verbatim>\<open>overwrite\<close> the
  existing Acme Corp is removed, the incoming one is refused by \<^verbatim>\<open>add_entity\<close> because
  its alias is in use, and the conflict is still counted as overwritten: the store is left
  without any entity for Acme Corp.
\<close>

theorem merge_overwrite_loses_entity:
  "merge ascii_lower store4 incoming4 ''overwrite'' (\<lambda>k. ''t4'') =
     (store4\<lparr>entities := [\<lparr>original = ''Beta Ltd'', alias = ''Org_9'', type = ''organization'',
                              variations = [], notes = [], added = ''t2''\<rparr>]\<rparr>,
      \<lparr>m_added = 0, m_skipped = 0, m_overwritten = 1\<rparr>)
   \<and> get_alias ascii_lower (fst (merge ascii_lower store4 incoming4 ''overwrite'' (\<lambda>k. ''t4''))) ''Acme Corp'' = None
   \<and> valid (validate ascii_lower store4)"
  by (simp add: merge_def merge_step_def store4_def incoming4_def get_entity_def get_alias_def
      remove_entity_def add_entity_def validate_def validate_issues_def duplicates_def char_defs)

section \<open>Export and import\<close>

lemmas space_defs = strip_def is_space_def ascii_whitespace_def no_space_def

lemma duplicates_empty_iff: "duplicates xs = {} \<longleftrightarrow> distinct xs"
proof (induction xs)
  case Nil
  then show ?case by (simp add: duplicates_def)
next
  case (Cons a xs)
  have "duplicates (a # xs) = (if a \<in> set xs then {a} else {}) \<union> duplicates xs"
    by (auto simp: duplicates_def count_list_0_iff)
  with Cons show ?case by auto
qed

lemma valid_unique_store: "valid (validate lower m) \<Longrightarrow> unique_store lower (entities m)"
  by (auto simp: validate_def validate_issues_def Let_def unique_store_def duplicates_empty_iff
      split: if_splits)

lemma universal_newlines_id: "CR \<notin> set s \<Longrightarrow> universal_newlines False s = s"
  by (induction s) auto

lemma read_cell_id: "CR \<notin> set s \<Longrightarrow> read_cell s = s"
  by (simp add: read_cell_def universal_newlines_id)

lemma split_no_sep: "c \<notin> set v \<Longrightarrow> split c v = [v]"
  by (induction v) auto

lemma split_append_sep: "c \<notin> set v \<Longrightarrow> split c (v @ c # rest) = v # split c rest"
  by (induction v) auto

lemma split_join:
  "\<forall>w \<in> set (v # vs). CHR '';'' \<notin> set w \<Longrightarrow>
   split (CHR '';'') (join ''; '' (v # vs)) = v # map (\<lambda>w. CHR '' '' # w) vs"
proof (induction vs arbitrary: v)
  case Nil
  then show ?case by (simp add: split_no_sep)
next
  case (Cons w ws)
  from Cons.prems have v: "CHR '';'' \<notin> set v" and ws: "\<forall>u \<in> set (w # ws). CHR '';'' \<notin> set u"
    by simp_all
  have "join ''; '' (v # w # ws) = v @ CHR '';'' # (CHR '' '' # join ''; '' (w # ws))" by simp
  then have "split (CHR '';'') (join ''; '' (v # w # ws))
      = v # split (CHR '';'') (CHR '' '' # join ''; '' (w # ws))"
    by (simp only: split_append_sep [OF v])
  also have "split (CHR '';'') (CHR '' '' # join ''; '' (w # ws))
      = (CHR '' '' # w) # map (\<lambda>w. CHR '' '' # w) ws"
    using Cons.IH [OF ws] by simp
  finally show ?case by simp
qed

lemma strip_space_cons: "strip space (CHR '' '' # w) = strip space w"
  by (simp add: strip_def is_space_def ascii_whitespace_def)

lemma parse_variations_join:
  assumes "\<forall>v \<in> set vs. CHR '';'' \<notin> set v \<and> v \<noteq> [] \<and> strip space v = v"
  shows "parse_variations space (join ''; '' vs) = vs"
proof (cases vs)
  case Nil
  then show ?thesis by (simp add: parse_variations_def strip_def)
next
  case (Cons v ws)
  from assms Cons have "\<forall>w \<in> set (v # ws). CHR '';'' \<notin> set w" by simp
  then have "split (CHR '';'') (join ''; '' vs) = v # map (\<lambda>w. CHR '' '' # w) ws"
    unfolding Cons by (rule split_join)
  moreover have "map (strip space) (v # map (\<lambda>w. CHR '' '' # w) ws) = v # ws"
    using assms Cons by (simp add: strip_space_cons comp_def map_idI)
  moreover have "filter (\<lambda>v. v \<noteq> []) (v # ws) = v # ws"
    using assms Cons by (simp add: filter_id_conv)
  ultimately show ?thesis using Cons by (simp add: parse_variations_def)
qed

lemma remove_first_None:
  "\<forall>e \<in> set es. lower (original e) \<noteq> lower orig \<Longrightarrow> remove_first lower orig es = None"
  by (induction es) auto

lemma read_header: "map read_cell csv_header = csv_header"
  by (simp add: csv_header_def read_cell_def CR_def LF_def)

lemma header_not_too_long: "\<not> too_long csv_header"
  by (simp add: too_long_def csv_header_def read_cell_def CR_def LF_def field_size_limit_def)

lemma clean_row:
  assumes "clean_entity space e"
  shows "map read_cell (entity_row e) = entity_row e" and "\<not> too_long (entity_row e)"
proof -
  from assms have c: "\<forall>cell \<in> set (entity_row e). CR \<notin> set cell \<and> length cell \<le> field_size_limit"
    by (simp add: clean_entity_def list_all_iff)
  then show r: "map read_cell (entity_row e) = entity_row e"
    by (simp add: map_idI read_cell_id)
  from c have "\<forall>cell \<in> set (entity_row e). \<not> field_size_limit < length (read_cell cell)"
    by (simp add: read_cell_id not_less)
  then show "\<not> too_long (entity_row e)"
    by (simp add: too_long_def list_ex_iff)
qed

lemma import_row_clean:
  assumes "clean_entity space e"
    and "\<not> has_duplicate lower (original e) (alias e) (entities m)"
  shows "import_row lower space overwrite now (dict_row csv_header (entity_row e)) (m, res)
     = (m\<lparr>entities := entities m @
            [new_entity (original e) (alias e) (type e) (Some (variations e)) (notes e) now]\<rparr>,
        res\<lparr>i_added := i_added res + 1\<rparr>)"
proof -
  let ?r = "dict_row csv_header (entity_row e)"
  from assms(1) have vs: "\<forall>v \<in> set (variations e). CHR '';'' \<notin> set v \<and> v \<noteq> [] \<and> strip space v = v"
    by (auto simp: clean_entity_def list_all_iff)
  have r: "?r ''Original'' = Some (original e)" "?r ''Alias'' = Some (alias e)"
    "?r ''Type'' = Some (type e)" "?r ''Variations'' = Some (join ''; '' (variations e))"
    "?r ''Notes'' = Some (notes e)"
    unfolding dict_row_def clean_row(1) [OF assms(1)]
    by (simp_all add: csv_header_def entity_row_def)
  from assms(2) have "\<forall>x \<in> set (entities m). lower (original x) \<noteq> lower (original e)"
    by (auto simp: has_duplicate_iff)
  then have rm: "remove_entity lower m (original e) = (False, m)"
    by (simp add: remove_entity_def remove_first_None)
  show ?thesis
    using assms(2)
    by (simp add: import_row_def Let_def r row_get_def rm parse_variations_join [OF vs] add_entity_def)
qed

lemma import_loop_clean:
  assumes "list_all (clean_entity space) es"
    and "unique_store lower (entities m @ es)"
  shows "\<exists>m' res'. import_loop lower space overwrite clock k csv_header (map entity_row es) (m, res)
          = Imported m' res'
       \<and> map core (entities m') = map core (entities m) @ map core es
       \<and> i_added res' = i_added res + length es
       \<and> i_skipped res' = i_skipped res \<and> i_errors res' = i_errors res"
  using assms
proof (induction es arbitrary: m res k)
  case Nil
  then show ?case by simp
next
  case (Cons e es)
  let ?new = "new_entity (original e) (alias e) (type e) (Some (variations e)) (notes e) (clock k)"
  let ?m1 = "m\<lparr>entities := entities m @ [?new]\<rparr>"
  from Cons.prems have ce: "clean_entity space e" and ces: "list_all (clean_entity space) es"
    by simp_all
  from Cons.prems(2) have "\<forall>x \<in> set (entities m). lower (original e) \<noteq> lower (original x)"
    and "\<forall>x \<in> set (entities m). lower (alias e) \<noteq> lower (alias x)"
    by (simp_all add: unique_store_def image_iff)
  then have nd: "\<not> has_duplicate lower (original e) (alias e) (entities m)"
    unfolding has_duplicate_iff by (metis (full_types))
  have step: "import_row lower space overwrite (clock k) (dict_row csv_header (entity_row e)) (m, res)
      = (?m1, res\<lparr>i_added := i_added res + 1\<rparr>)"
    by (rule import_row_clean [OF ce nd])
  have row: "\<not> too_long (entity_row e)" "entity_row e \<noteq> []"
    "\<not> length (entity_row e) < length csv_header"
    using clean_row(2) [OF ce] by (simp_all add: entity_row_def csv_header_def)
  from Cons.prems(2) have u: "unique_store lower (entities ?m1 @ es)"
    by (simp add: unique_store_def new_entity_def)
  from Cons.IH [OF ces u, of "Suc k" "res\<lparr>i_added := i_added res + 1\<rparr>"]
  obtain m' res' where
    "import_loop lower space overwrite clock (Suc k) csv_header (map entity_row es)
       (?m1, res\<lparr>i_added := i_added res + 1\<rparr>) = Imported m' res'"
    "map core (entities m') = map core (entities ?m1) @ map core es"
    "i_added res' = i_added (res\<lparr>i_added := i_added res + 1\<rparr>) + length es"
    "i_skipped res' = i_skipped res" "i_errors res' = i_errors res"
    by auto
  moreover have "core ?new = core e"
    by (simp add: core_def new_entity_def or_empty_def)
  ultimately show ?case
    by (simp add: step row)
qed

text \<open>
  C7, as stated, fails: a valid store whose only variation is \<^verbatim>\<open>Bob\<close> followed by a
  space, which holds no semicolon, comes back from export and import with the variation
  \<^verbatim>\<open>Bob\<close>, because \<^verbatim>\<open>import_csv\<close> strips every variation.
\<close>

theorem csv_round_trip_counterexample:
  "valid (validate ascii_lower store7)
   \<and> variations (entities store7 ! 0) = [''Bob '']
   \<and> length (entities store7) = 1
   \<and> CHR '';'' \<notin> set ''Bob ''
   \<and> import_csv ascii_lower no_space (empty_mapping ''t0'') (export_csv store7) False clock1 =
       Imported \<lparr>version = ''1.0'', created = ''t0'', updated = ''t0'',
               entities = [\<lparr>original = ''Robert Jones'', alias = ''Person_A'', type = ''person'',
                  variations = [''Bob''], notes = [], added = ''t2''\<rparr>]\<rparr>
             \<lparr>i_added = 1, i_skipped = 0, i_errors = []\<rparr>
   \<and> core ` set [\<lparr>original = ''Robert Jones'', alias = ''Person_A'', type = ''person'',
                  variations = [''Bob''], notes = [], added = ''t2''\<rparr>]
       \<noteq> core ` set (entities store7)"
  by (simp add: store7_def validate_def validate_issues_def duplicates_def char_defs
      import_csv_def export_csv_def dict_row_def csv_header_def entity_row_def read_cell_def
      too_long_def field_size_limit_def
      CR_def LF_def import_row_def row_get_def parse_variations_def space_defs add_entity_def
      new_entity_def or_empty_def empty_mapping_def clock1_def core_def)

text \<open>
  C7, amended. For a store that \<^verbatim>\<open>validate\<close> accepts and whose entities are all clean
  (no cell of the exported row holds a carriage return or is longer than the field size
  limit of the reader; every variation is without semicolon, not empty and without white
  space at either end), importing the export into an empty store returns, adds every row,
  skips none, reports no error and yields the same entities in the same order on
  original, alias, type, variations and notes; so the two entity sets are equal on these
  fields.
\<close>

theorem csv_round_trip:
  assumes "valid (validate lower m)" and "list_all (clean_entity space) (entities m)"
  shows "\<exists>m' res. import_csv lower space (empty_mapping now) (export_csv m) overwrite clock
         = Imported m' res
     \<and> map core (entities m') = map core (entities m)
     \<and> core ` set (entities m') = core ` set (entities m)
     \<and> i_added res = length (entities m) \<and> i_skipped res = 0 \<and> i_errors res = []"
proof -
  from assms(1) have "unique_store lower (entities (empty_mapping now) @ entities m)"
    by (simp add: empty_mapping_def valid_unique_store)
  from import_loop_clean [OF assms(2) this, of overwrite clock 0
      "\<lparr>i_added = 0, i_skipped = 0, i_errors = []\<rparr>"]
  obtain m' res where r: "import_loop lower space overwrite clock 0 csv_header
          (map entity_row (entities m))
          (empty_mapping now, \<lparr>i_added = 0, i_skipped = 0, i_errors = []\<rparr>) = Imported m' res"
    and c: "map core (entities m') = map core (entities m)"
    and n: "i_added res = length (entities m)" "i_skipped res = 0" "i_errors res = []"
    by (auto simp: empty_mapping_def)
  from c have "set (map core (entities m')) = set (map core (entities m))" by simp
  then have "core ` set (entities m') = core ` set (entities m)" by simp
  with r c n show ?thesis
    by (simp add: import_csv_def export_csv_def header_not_too_long read_header)
qed

theorem csv_round_trip_witness:
  "valid (validate ascii_lower store7b) \<and> list_all (clean_entity no_space) (entities store7b)
   \<and> (\<exists>m' res. import_csv ascii_lower no_space (empty_mapping ''t0'') (export_csv store7b) False clock1
         = Imported m' res
       \<and> map core (entities m') = map core (entities store7b)
       \<and> i_added res = 2 \<and> i_skipped res = 0 \<and> i_errors res = [])"
proof -
  have v: "valid (validate ascii_lower store7b)"
    by (simp add: store7b_def validate_def validate_issues_def duplicates_def char_defs)
  have c: "list_all (clean_entity no_space) (entities store7b)"
    by (simp add: store7b_def clean_entity_def entity_row_def CR_def space_defs field_size_limit_def)
  have l: "length (entities store7b) = 2" by (simp add: store7b_def)
  from csv_round_trip [OF v c, of "''t0''" False clock1] v c l show ?thesis
    by auto
qed

section \<open>Numbered placeholders\<close>

lemma map_of_counter_set:
  "map_of (counter_set d k v) k' = (if k' = k then Some v else map_of d k')"
  by (induction d) auto

lemma counter_of_set:
  "counter_of (st\<lparr>random_counter := counter_set (random_counter st) k v\<rparr>) k'
     = (if k' = k then v else counter_of st k')"
  by (simp add: counter_of_def map_of_counter_set)

lemma replace_func_random:
  "replace_func P True m st =
     (placeholder P (counter_of st P + 1),
      st\<lparr>random_counter := counter_set (random_counter st) P (counter_of st P + 1),
         redaction_log := redaction_log st @ [Pattern_entry P m (placeholder P (counter_of st P + 1))]\<rparr>)"
  by (simp add: replace_func_def get_pattern_replacement_def Let_def)

lemma enumerate_Cons_shift:
  "map f (enumerate 0 (x # xs)) = f (0, x) # map (\<lambda>(i, y). f (Suc i, y)) (enumerate 0 xs)"
  by (simp add: enumerate_Suc_eq [of 0] comp_def case_prod_unfold apfst_def map_prod_def)

lemma counter_set_twice: "counter_set (counter_set d k v) k w = counter_set d k w"
  by (induction d) auto

lemma re_sub_fn_numbered:
  "re_sub_fn (replace_func P True) segs tail st =
     (concat (map (\<lambda>(i, gap, m). gap @ placeholder P (counter_of st P + 1 + i)) (enumerate 0 segs)) @ tail,
      st\<lparr>redaction_log := redaction_log st @
            map (\<lambda>(i, gap, m). Pattern_entry P m (placeholder P (counter_of st P + 1 + i))) (enumerate 0 segs),
         random_counter := (if segs = [] then random_counter st
                            else counter_set (random_counter st) P (counter_of st P + length segs))\<rparr>)"
proof (induction segs arbitrary: st)
  case Nil
  then show ?case by simp
next
  case (Cons seg segs)
  obtain gap m where seg: "seg = (gap, m)" by (cases seg)
  define st1 where "st1 = snd (replace_func P True m st)"
  have c1: "counter_of st1 P = counter_of st P + 1"
    and l1: "redaction_log st1 = redaction_log st @ [Pattern_entry P m (placeholder P (counter_of st P + 1))]"
    and r1: "random_counter st1 = counter_set (random_counter st) P (counter_of st P + 1)"
    and f1: "fst (replace_func P True m st) = placeholder P (counter_of st P + 1)"
    and s1: "st1 = st\<lparr>random_counter := counter_set (random_counter st) P (counter_of st P + 1),
         redaction_log := redaction_log st @ [Pattern_entry P m (placeholder P (counter_of st P + 1))]\<rparr>"
    by (simp_all add: st1_def replace_func_random counter_of_def map_of_counter_set)
  have step: "re_sub_fn (replace_func P True) (seg # segs) tail st =
      (gap @ placeholder P (counter_of st P + 1) @ fst (re_sub_fn (replace_func P True) segs tail st1),
       snd (re_sub_fn (replace_func P True) segs tail st1))"
    by (simp add: seg Let_def st1_def f1)
  have e: "map f (enumerate 0 (seg # segs))
      = f (0, seg) # map (\<lambda>(i, y). f (Suc i, y)) (enumerate 0 segs)" for f :: "nat \<times> string \<times> string \<Rightarrow> 'b"
    by (rule enumerate_Cons_shift)
  show ?case
    unfolding step e Cons.IH [of st1]
    by (simp add: seg c1 l1 r1 case_prod_unfold counter_set_twice) (simp add: s1)
qed

lemma numbered_pass_eq:
  "(if P \<in> set pattern_names then
      re_sub_fn (replace_func P True) (fst (engine P (fst s))) (snd (engine P (fst s))) (snd s)
    else s) = numbered_pass engine s P"
  by (simp add: numbered_pass_def Let_def re_sub_fn_numbered)

lemma redact_patterns_loop_fold:
  "redact_patterns_loop engine True ps s = foldl (numbered_pass engine) s ps"
  by (induction ps arbitrary: s) (simp_all add: numbered_pass_eq del: re_sub_fn.simps)

lemma re_sub_fn_random:
  "fst (re_sub_fn (replace_func P True) segs tail st) =
      concat (map (\<lambda>(i, gap, m). gap @ placeholder P (counter_of st P + 1 + i)) (enumerate 0 segs)) @ tail
   \<and> redaction_log (snd (re_sub_fn (replace_func P True) segs tail st)) =
      redaction_log st @
      map (\<lambda>(i, gap, m). Pattern_entry P m (placeholder P (counter_of st P + 1 + i))) (enumerate 0 segs)
   \<and> counter_of (snd (re_sub_fn (replace_func P True) segs tail st)) Q =
      (if Q = P then counter_of st P + length segs else counter_of st Q)
   \<and> r_mapping (snd (re_sub_fn (replace_func P True) segs tail st)) = r_mapping st"
  by (simp add: re_sub_fn_numbered counter_of_def map_of_counter_set)

lemma pattern_entries_pass:
  "pattern_entries P (map (\<lambda>(i, gap, m). Pattern_entry Q m (f i)) (enumerate 0 segs)) =
     (if Q = P then map (\<lambda>(i, gap, m). Pattern_entry Q m (f i)) (enumerate 0 segs) else [])"
  by (auto simp: pattern_entries_def filter_id_conv filter_empty_conv)

lemma replacement_pass:
  "map replacement (map (\<lambda>(i, gap, m). Pattern_entry P m (placeholder P (c + 1 + i))) (enumerate 0 segs))
     = map (placeholder P) [c + 1 ..< c + 1 + length segs]"
proof -
  have "map replacement (map (\<lambda>(i, gap, m). Pattern_entry P m (placeholder P (c + 1 + i))) (enumerate 0 segs))
      = map (\<lambda>i. placeholder P (c + 1 + i)) (map fst (enumerate 0 segs))"
    by (simp add: comp_def case_prod_unfold del: map_fst_enumerate)
  also have "\<dots> = map (\<lambda>i. placeholder P (c + 1 + i)) [0 ..< length segs]"
    by (simp only: map_fst_enumerate add_0)
  also have "\<dots> = map (placeholder P) (map (\<lambda>i. c + 1 + i) [0 ..< length segs])"
    by (simp add: comp_def)
  also have "map (\<lambda>i. c + 1 + i) [0 ..< length segs] = [c + 1 ..< c + 1 + length segs]"
    using map_add_upt [of "c + 1" "length segs"] by (simp add: add.commute)
  finally show ?thesis .
qed

lemma redact_patterns_loop_numbering:
  "\<exists>new. redaction_log (snd (redact_patterns_loop engine True ps s)) = redaction_log (snd s) @ new
     \<and> map replacement (pattern_entries P new) =
         map (placeholder P)
           [counter_of (snd s) P + 1 ..< counter_of (snd s) P + 1 + length (pattern_entries P new)]
     \<and> counter_of (snd (redact_patterns_loop engine True ps s)) P =
         counter_of (snd s) P + length (pattern_entries P new)"
proof (induction ps arbitrary: s)
  case Nil
  have "redaction_log (snd s) = redaction_log (snd s) @ [] \<and>
    map replacement (pattern_entries P []) =
      map (placeholder P) [counter_of (snd s) P + 1 ..< counter_of (snd s) P + 1 + length (pattern_entries P [])]
    \<and> counter_of (snd s) P = counter_of (snd s) P + length (pattern_entries P [])"
    by (simp add: pattern_entries_def)
  then show ?case by (intro exI [of _ "[]"]) simp
next
  case (Cons Q ps)
  let ?c = "counter_of (snd s) P"
  let ?s1 = "if Q \<in> set pattern_names then
          re_sub_fn (replace_func Q True)
            (fst (engine Q (fst s))) (snd (engine Q (fst s))) (snd s)
        else s"
  have "\<exists>new1. redaction_log (snd ?s1) = redaction_log (snd s) @ new1
      \<and> map replacement (pattern_entries P new1) =
          map (placeholder P) [?c + 1 ..< ?c + 1 + length (pattern_entries P new1)]
      \<and> counter_of (snd ?s1) P = ?c + length (pattern_entries P new1)"
  proof (cases "Q \<in> set pattern_names")
    case False
    have "redaction_log (snd s) = redaction_log (snd s) @ [] \<and>
      map replacement (pattern_entries P []) =
        map (placeholder P) [?c + 1 ..< ?c + 1 + length (pattern_entries P [])]
      \<and> counter_of (snd s) P = ?c + length (pattern_entries P [])"
      by (simp add: pattern_entries_def)
    with False show ?thesis by (intro exI [of _ "[]"]) simp
  next
    case True
    let ?segs = "fst (engine Q (fst s))"
    define new1 where "new1 = map (\<lambda>(i, gap, m). Pattern_entry Q m (placeholder Q (counter_of (snd s) Q + 1 + i)))
                   (enumerate 0 ?segs)"
    note pass = re_sub_fn_random [of Q ?segs "snd (engine Q (fst s))" "snd s" P]
    from pass True have log: "redaction_log (snd ?s1) = redaction_log (snd s) @ new1"
      and cnt: "counter_of (snd ?s1) P = (if P = Q then ?c + length ?segs else ?c)"
      by (simp_all add: new1_def)
    have len: "length new1 = length ?segs" by (simp add: new1_def)
    have pe: "pattern_entries P new1 = (if Q = P then new1 else [])"
      unfolding new1_def by (rule pattern_entries_pass)
    have rp: "map replacement new1 =
        map (placeholder Q) [counter_of (snd s) Q + 1 ..< counter_of (snd s) Q + 1 + length ?segs]"
      unfolding new1_def by (rule replacement_pass)
    have "map replacement (pattern_entries P new1) =
          map (placeholder P) [?c + 1 ..< ?c + 1 + length (pattern_entries P new1)]
      \<and> counter_of (snd ?s1) P = ?c + length (pattern_entries P new1)"
    proof (cases "Q = P")
      case eq: True
      then have "pattern_entries P new1 = new1" by (simp add: pe)
      then show ?thesis using rp cnt by (simp only: len eq if_True simp_thms)
    next
      case neq: False
      then have "pattern_entries P new1 = []" by (simp add: pe)
      moreover from neq cnt have "counter_of (snd ?s1) P = ?c" by auto
      ultimately show ?thesis by simp
    qed
    with log have "redaction_log (snd ?s1) = redaction_log (snd s) @ new1
      \<and> map replacement (pattern_entries P new1) =
          map (placeholder P) [?c + 1 ..< ?c + 1 + length (pattern_entries P new1)]
      \<and> counter_of (snd ?s1) P = ?c + length (pattern_entries P new1)" by simp
    then show ?thesis by blast
  qed
  then obtain new1 where n1: "redaction_log (snd ?s1) = redaction_log (snd s) @ new1"
    "map replacement (pattern_entries P new1) =
          map (placeholder P) [?c + 1 ..< ?c + 1 + length (pattern_entries P new1)]"
    "counter_of (snd ?s1) P = ?c + length (pattern_entries P new1)" by blast
  from Cons.IH [of ?s1] obtain new2 where n2:
    "redaction_log (snd (redact_patterns_loop engine True ps ?s1)) = redaction_log (snd ?s1) @ new2"
    "map replacement (pattern_entries P new2) =
         map (placeholder P)
           [counter_of (snd ?s1) P + 1 ..< counter_of (snd ?s1) P + 1 + length (pattern_entries P new2)]"
    "counter_of (snd (redact_patterns_loop engine True ps ?s1)) P =
         counter_of (snd ?s1) P + length (pattern_entries P new2)" by blast
  let ?n1 = "length (pattern_entries P new1)" and ?n2 = "length (pattern_entries P new2)"
  have split: "[?c + 1 ..< ?c + 1 + (?n1 + ?n2)] = [?c + 1 ..< ?c + 1 + ?n1] @ [?c + ?n1 + 1 ..< ?c + ?n1 + 1 + ?n2]"
    using upt_add_eq_append [of "?c + 1" "?c + 1 + ?n1" ?n2] by (simp add: add.assoc add.left_commute add.commute)
  have len12: "length (pattern_entries P (new1 @ new2)) = ?n1 + ?n2"
    by (simp add: pattern_entries_def)
  have "map replacement (pattern_entries P (new1 @ new2)) =
      map replacement (pattern_entries P new1) @ map replacement (pattern_entries P new2)"
    by (simp add: pattern_entries_def)
  also have "\<dots> = map (placeholder P) [?c + 1 ..< ?c + 1 + ?n1]
      @ map (placeholder P) [?c + ?n1 + 1 ..< ?c + ?n1 + 1 + ?n2]"
    using n1(2) n2(2) unfolding n1(3) by (simp only:)
  also have "\<dots> = map (placeholder P) [?c + 1 ..< ?c + 1 + (?n1 + ?n2)]"
    by (simp only: split map_append)
  finally have r12: "map replacement (pattern_entries P (new1 @ new2)) =
      map (placeholder P) [?c + 1 ..< ?c + 1 + length (pattern_entries P (new1 @ new2))]"
    by (simp only: len12)
  have l12: "redaction_log (snd (redact_patterns_loop engine True (Q # ps) s))
      = redaction_log (snd s) @ (new1 @ new2)"
    using n1(1) n2(1) by simp
  have c12: "counter_of (snd (redact_patterns_loop engine True (Q # ps) s)) P =
         ?c + length (pattern_entries P (new1 @ new2))"
    using n1(3) n2(3) by (simp add: len12)
  from l12 r12 c12 have "redaction_log (snd (redact_patterns_loop engine True (Q # ps) s)) = redaction_log (snd s) @ (new1 @ new2)
     \<and> map replacement (pattern_entries P (new1 @ new2)) =
         map (placeholder P) [?c + 1 ..< ?c + 1 + length (pattern_entries P (new1 @ new2))]
     \<and> counter_of (snd (redact_patterns_loop engine True (Q # ps) s)) P =
         ?c + length (pattern_entries P (new1 @ new2))"
    by (intro conjI)
  then show ?case by blast
qed

lemma decimal_small:
  "n < 10 \<Longrightarrow> decimal n = [digits ! n]"
  "10 \<le> n \<Longrightarrow> decimal n = decimal (n div 10) @ [digits ! (n mod 10)]"
  by (simp_all add: decimal.simps [of n])

lemma format_03d_three_digits:
  assumes "n < 1000"
  shows "format_03d n = [digits ! (n div 100), digits ! (n div 10 mod 10), digits ! (n mod 10)]"
proof -
  consider "n < 10" | "10 \<le> n" "n < 100" | "100 \<le> n" by linarith
  then show ?thesis
  proof cases
    case 1
    then have "decimal n = [digits ! n]" by (rule decimal_small)
    moreover from 1 have "n div 100 = 0" "n div 10 mod 10 = 0" "n mod 10 = n" by simp_all
    ultimately show ?thesis by (simp add: format_03d_def digits_def numeral_2_eq_2)
  next
    case 2
    then have "n div 10 < 10" by simp
    with 2 have "decimal n = [digits ! (n div 10), digits ! (n mod 10)]"
      by (simp add: decimal_small)
    moreover from 2 have "n div 100 = 0" "n div 10 mod 10 = n div 10" by simp_all
    ultimately show ?thesis by (simp add: format_03d_def digits_def)
  next
    case 3
    with assms have a: "10 \<le> n div 10" "n div 10 < 100" "n div 10 div 10 < 10" by simp_all
    have "n div 10 div 10 = n div 100" by (simp add: div_mult2_eq [symmetric])
    with 3 a have "decimal n = [digits ! (n div 100), digits ! (n div 10 mod 10), digits ! (n mod 10)]"
      by (simp add: decimal_small)
    then show ?thesis by (simp add: format_03d_def)
  qed
qed

lemma re_sub_fn_preserves:
  assumes "\<And>m st. random_counter (snd (f m st)) = random_counter st"
  shows "random_counter (snd (re_sub_fn f segs tail st)) = random_counter st"
proof (induction segs arbitrary: st)
  case Nil
  then show ?case by simp
next
  case (Cons seg segs)
  obtain gap m where "seg = (gap, m)" by (cases seg)
  then show ?case using Cons.IH [of "snd (f m st)"] assms [of m st] by (simp add: Let_def)
qed

lemma re_sub_fn_replacer:
  "re_sub_fn (replacer al t) segs tail st =
     (concat (map (\<lambda>(gap, m). gap @ al) segs) @ tail,
      st\<lparr>redaction_log := redaction_log st @ map (\<lambda>(gap, m). Entity_entry m al t) segs\<rparr>)"
proof (induction segs arbitrary: st)
  case Nil
  then show ?case by simp
next
  case (Cons seg segs)
  obtain gap m where "seg = (gap, m)" by (cases seg)
  then show ?case
    using Cons.IH [of "st\<lparr>redaction_log := redaction_log st @ [Entity_entry m al t]\<rparr>"]
    by (simp add: Let_def replacer_def)
qed

lemma format_03d_long: "1000 \<le> n \<Longrightarrow> format_03d n = decimal n"
proof -
  assume n: "1000 \<le> n"
  then have a: "10 \<le> n" "10 \<le> n div 10" "10 \<le> n div 10 div 10" by simp_all
  have "decimal n = decimal (n div 10 div 10 div 10) @
      [digits ! (n div 10 div 10 mod 10), digits ! (n div 10 mod 10), digits ! (n mod 10)]"
    using a by (simp add: decimal_small(2))
  then have "3 \<le> length (decimal n)" by simp
  then show ?thesis by (simp add: format_03d_def)
qed

lemma redact_terms_counter:
  "random_counter (snd (redact_terms word ci cs al terms s)) = random_counter (snd s)"
  by (induction terms arbitrary: s) (simp_all add: re_sub_fn_replacer)

lemma redact_entities_loop_counter:
  "random_counter (snd (redact_entities_loop word ci cs es s)) = random_counter (snd s)"
  by (induction es arbitrary: s) (simp_all add: redact_terms_counter del: redact_terms.simps)

lemma redact_patterns_loop_plain_counter:
  "random_counter (snd (redact_patterns_loop engine False ps s)) = random_counter (snd s)"
  by (induction ps arbitrary: s)
    (simp_all add: re_sub_fn_preserves replace_func_def get_pattern_replacement_def Let_def)

lemma random_ids_loop_frame:
  "random_counter (final_state (random_ids_loop word ci other rnd prefix ents s))
       = random_counter (snd (snd s))
   \<and> r_mapping (final_state (random_ids_loop word ci other rnd prefix ents s))
       = r_mapping (snd (snd s))"
proof (induction ents arbitrary: s)
  case Nil
  then show ?case by (cases s) simp
next
  case (Cons ent ents)
  obtain result dm st where s: "s = (result, dm, st)" by (cases s)
  show ?case
    unfolding s
    by (simp add: Let_def Cons.IH split: sum.splits)
qed

text \<open>
  C6, amended. In random mode \<^verbatim>\<open>redact_patterns\<close> is one numbered pass after the other
  over the listed names, all keys of \<^verbatim>\<open>PATTERNS\<close> when no list is given, each pass on the
  text and the redactor that the passes before have left: match number \<open>i\<close> of the pass
  for \<open>P\<close>, counted from zero, is replaced by the placeholder numbered \<open>c + 1 + i\<close> and
  logged with it, \<open>c\<close> being the counter of \<open>P\<close> before the pass, and the counter ends
  as \<open>c\<close> plus the number of matches. So the matches of \<open>P\<close> that a call logs carry, in
  order, the placeholders numbered from the counter before the call plus one, and the
  counter grows by their number: the numbering runs on from call to call. The placeholder
  is the upper-cased name and the number in the format \<^verbatim>\<open>03d\<close> between brackets: three
  digits for a number below 1000, the decimal digits of the number from 1000 on.
  \<^verbatim>\<open>clear_log\<close> sets every counter back to zero and empties the log; a call in the plain
  mode, \<^verbatim>\<open>redact_entities\<close> and \<^verbatim>\<open>redact_with_random_ids\<close> leave the counters alone. A
  text in which the engine finds two addresses comes out of a call for the pattern
  \<^verbatim>\<open>email\<close>, after \<^verbatim>\<open>clear_log\<close>, with \<^verbatim>\<open>[EMAIL-001]\<close> and \<^verbatim>\<open>[EMAIL-002]\<close> in this order.
\<close>

theorem random_mode_numbering:
  "redact_patterns engine st text patterns True =
     foldl (numbered_pass engine) (text, st)
       (case patterns of None \<Rightarrow> pattern_names | Some ps \<Rightarrow> ps)
   \<and> (let c = counter_of st P;
        st' = snd (redact_patterns engine st text patterns True);
        new = drop (length (redaction_log st)) (redaction_log st')
    in redaction_log st' = redaction_log st @ new
       \<and> map replacement (pattern_entries P new) =
           map (placeholder P) [c + 1 ..< c + 1 + length (pattern_entries P new)]
       \<and> counter_of st' P = c + length (pattern_entries P new))
   \<and> placeholder P k = ''['' @ ascii_upper P @ ''-'' @ format_03d k @ '']''
   \<and> (k < 1000 \<longrightarrow>
       format_03d k = [digits ! (k div 100), digits ! (k div 10 mod 10), digits ! (k mod 10)])
   \<and> (1000 \<le> k \<longrightarrow> format_03d k = decimal k)
   \<and> counter_of (clear_log st) P = 0
   \<and> redaction_log (clear_log st) = []
   \<and> random_counter (snd (redact_patterns engine st text patterns False)) = random_counter st
   \<and> random_counter (snd (redact_entities word ci st text case_sensitive)) = random_counter st
   \<and> random_counter (final_state (redact_with_random_ids word ci other rnd st text ents prefix))
       = random_counter st
   \<and> (engine ''email'' text = ([(g1, a1), (g2, a2)], tail) \<longrightarrow>
       fst (redact_patterns engine (clear_log st) text (Some [''email'']) True) =
         g1 @ ''[EMAIL-001]'' @ g2 @ ''[EMAIL-002]'' @ tail)"
proof -
  let ?st' = "snd (redact_patterns engine st text patterns True)"
  have 0: "redact_patterns engine st text patterns True =
     foldl (numbered_pass engine) (text, st)
       (case patterns of None \<Rightarrow> pattern_names | Some ps \<Rightarrow> ps)"
    by (simp add: redact_patterns_def redact_patterns_loop_fold)
  from redact_patterns_loop_numbering
    [of engine "case patterns of None \<Rightarrow> pattern_names | Some ps \<Rightarrow> ps" "(text, st)" P]
  obtain new where new: "redaction_log ?st' = redaction_log st @ new"
    "map replacement (pattern_entries P new) =
       map (placeholder P) [counter_of st P + 1 ..< counter_of st P + 1 + length (pattern_entries P new)]"
    "counter_of ?st' P = counter_of st P + length (pattern_entries P new)"
    unfolding redact_patterns_def by auto
  from new(1) have d: "drop (length (redaction_log st)) (redaction_log ?st') = new" by simp
  have 1: "(let c = counter_of st P;
        st' = snd (redact_patterns engine st text patterns True);
        new = drop (length (redaction_log st)) (redaction_log st')
    in redaction_log st' = redaction_log st @ new
       \<and> map replacement (pattern_entries P new) =
           map (placeholder P) [c + 1 ..< c + 1 + length (pattern_entries P new)]
       \<and> counter_of st' P = c + length (pattern_entries P new))"
    unfolding Let_def d using new by (intro conjI)
  have 3: "placeholder P k = ''['' @ ascii_upper P @ ''-'' @ format_03d k @ '']''"
    by (simp add: placeholder_def)
  have 4: "k < 1000 \<longrightarrow>
       format_03d k = [digits ! (k div 100), digits ! (k div 10 mod 10), digits ! (k mod 10)]"
    by (simp add: format_03d_three_digits)
  have 10: "1000 \<le> k \<longrightarrow> format_03d k = decimal k"
    by (simp add: format_03d_long)
  have 5: "counter_of (clear_log st) P = 0" "redaction_log (clear_log st) = []"
    by (simp_all add: clear_log_def counter_of_def)
  have 6: "random_counter (snd (redact_patterns engine st text patterns False)) = random_counter st"
    by (simp add: redact_patterns_def redact_patterns_loop_plain_counter)
  have 7: "random_counter (snd (redact_entities word ci st text case_sensitive)) = random_counter st"
    by (simp add: redact_entities_def redact_entities_loop_counter)
  have 8: "random_counter (final_state (redact_with_random_ids word ci other rnd st text ents prefix))
       = random_counter st"
    using random_ids_loop_frame [of word ci other rnd prefix ents "(text, [], st)"]
    by (simp add: redact_with_random_ids_def)
  have 9: "engine ''email'' text = ([(g1, a1), (g2, a2)], tail) \<longrightarrow>
       fst (redact_patterns engine (clear_log st) text (Some [''email'']) True) =
         g1 @ ''[EMAIL-001]'' @ g2 @ ''[EMAIL-002]'' @ tail"
  proof
    assume e: "engine ''email'' text = ([(g1, a1), (g2, a2)], tail)"
    have p1: "placeholder ''email'' (Suc 0) = ''[EMAIL-001]''"
      and p2: "placeholder ''email'' (Suc (Suc 0)) = ''[EMAIL-002]''"
      by (simp_all add: placeholder_def ascii_upper_def ascii_upper_char_def upper_letters_def
          lower_letters_def format_03d_three_digits digits_def)
    have c0: "counter_of (clear_log st) ''email'' = 0"
      by (simp add: clear_log_def counter_of_def)
    have mem: "''email'' \<in> set pattern_names" by (simp add: pattern_names_def)
    have "fst (redact_patterns engine (clear_log st) text (Some [''email'']) True) =
        fst (re_sub_fn (replace_func ''email'' True) [(g1, a1), (g2, a2)] tail (clear_log st))"
      by (simp add: redact_patterns_def e mem del: re_sub_fn.simps)
    also have "\<dots> = concat (map (\<lambda>(i, gap, m). gap @ placeholder ''email'' (counter_of (clear_log st) ''email'' + 1 + i))
                   (enumerate 0 [(g1, a1), (g2, a2)])) @ tail"
      by (simp only: re_sub_fn_random [THEN conjunct1])
    also have "\<dots> = g1 @ ''[EMAIL-001]'' @ g2 @ ''[EMAIL-002]'' @ tail"
      by (simp add: c0 p1 p2)
    finally show "fst (redact_patterns engine (clear_log st) text (Some [''email'']) True) =
         g1 @ ''[EMAIL-001]'' @ g2 @ ''[EMAIL-002]'' @ tail" .
  qed
  from 0 1 3 4 10 5 6 7 8 9 show ?thesis by (intro conjI)
qed

theorem random_mode_numbering_witness:
  "''email'' \<in> set pattern_names
   \<and> engine1 ''email'' text1 = ([(''Reach me at '', ''a@x.com''), ('' or '', ''b@x.com'')], [])
   \<and> fst (redact_patterns engine1 (clear_log st0) text1 (Some [''email'']) True)
       = ''Reach me at [EMAIL-001] or [EMAIL-002]''
   \<and> format_03d 7 = ''007''
   \<and> format_03d 1234 = ''1234''
   \<and> fst (redact_patterns engine1
             (snd (redact_patterns engine1 (clear_log st0) text1 (Some [''email'']) True))
             ''Also c@y.org'' None True)
       = ''Also [EMAIL-003]''
   \<and> fst (redact_patterns engine1
             (clear_log (snd (redact_patterns engine1 (clear_log st0) text1 (Some [''email'']) True)))
             ''Also c@y.org'' None True)
       = ''Also [EMAIL-001]''"
proof -
  have m: "''email'' \<in> set pattern_names" by (simp add: pattern_names_def)
  have e: "engine1 ''email'' text1 = ([(''Reach me at '', ''a@x.com''), ('' or '', ''b@x.com'')], [])"
    by (simp add: engine1_def text1_def)
  note t = random_mode_numbering [where engine = engine1 and st = st0 and ?text = text1
      and ?g1.0 = "''Reach me at ''" and ?a1.0 = "''a@x.com''" and ?g2.0 = "'' or ''"
      and ?a2.0 = "''b@x.com''" and tail = "[]"]
  from t [where k = 7] e
  have 1: "fst (redact_patterns engine1 (clear_log st0) text1 (Some [''email'']) True)
       = ''Reach me at [EMAIL-001] or [EMAIL-002]''"
    by simp
  from t [where k = 7] have f1: "format_03d 7 = ''007''"
    by (simp add: digits_def)
  from t [where k = 1234] have f2: "format_03d 1234 = ''1234''"
    by (simp add: decimal_small digits_def)
  have 2: "fst (redact_patterns engine1
             (snd (redact_patterns engine1 (clear_log st0) text1 (Some [''email'']) True))
             ''Also c@y.org'' None True)
       = ''Also [EMAIL-003]''"
    by code_simp
  have 3: "fst (redact_patterns engine1
             (clear_log (snd (redact_patterns engine1 (clear_log st0) text1 (Some [''email'']) True)))
             ''Also c@y.org'' None True)
       = ''Also [EMAIL-001]''"
    by code_simp
  from m e 1 f1 f2 2 3 show ?thesis by (intro conjI)
qed

text \<open>
  C6, as stated, fails at the thousandth match: the format \<^verbatim>\<open>03d\<close> pads to three digits
  and cuts nothing, so in a text of a thousand addresses the last one is replaced by a
  placeholder of four digits.
\<close>

theorem random_mode_fourth_digit:
  "length (fst (engine1000 ''email'' text1000)) = 1000
   \<and> redaction_log (snd (redact_patterns engine1000 st0 text1000 (Some [''email'']) True)) ! 999
       = Pattern_entry ''email'' ''a@x.com'' ''[EMAIL-1000]''
   \<and> counter_of (snd (redact_patterns engine1000 st0 text1000 (Some [''email'']) True)) ''email''
       = 1000"
proof -
  have mem: "''email'' \<in> set pattern_names" by (simp add: pattern_names_def)
  have e: "engine1000 ''email'' text1000 = (replicate 1000 ('' '', ''a@x.com''), [])"
    by (simp add: engine1000_def)
  have c0: "counter_of st0 ''email'' = 0" by (simp add: counter_of_def st0_def)
  have l0: "redaction_log st0 = []" by (simp add: st0_def)
  have p: "placeholder ''email'' 1000 = ''[EMAIL-1000]''"
    by (simp add: placeholder_def ascii_upper_def ascii_upper_char_def upper_letters_def
        lower_letters_def format_03d_long decimal_small digits_def)
  have r: "redact_patterns engine1000 st0 text1000 (Some [''email'']) True
      = numbered_pass engine1000 (text1000, st0) ''email''"
    by (simp add: redact_patterns_def redact_patterns_loop_fold del: redact_patterns_loop.simps)
  have "redaction_log (snd (redact_patterns engine1000 st0 text1000 (Some [''email'']) True)) ! 999
      = map (\<lambda>(i, gap, m). Pattern_entry ''email'' m (placeholder ''email'' (0 + 1 + i)))
          (enumerate 0 (replicate 1000 ('' '', ''a@x.com''))) ! 999"
    by (simp add: r numbered_pass_def Let_def mem e c0 l0)
  also have "\<dots> = Pattern_entry ''email'' ''a@x.com'' (placeholder ''email'' 1000)"
    by (simp add: nth_enumerate_eq)
  finally have 1: "redaction_log (snd (redact_patterns engine1000 st0 text1000 (Some [''email'']) True)) ! 999
       = Pattern_entry ''email'' ''a@x.com'' ''[EMAIL-1000]''"
    by (simp only: p)
  have 2: "counter_of (snd (redact_patterns engine1000 st0 text1000 (Some [''email'']) True)) ''email''
       = 1000"
    by (simp add: r numbered_pass_def Let_def mem e c0)
       (simp add: counter_of_def map_of_counter_set)
  from e 1 2 show ?thesis by simp
qed

section \<open>Random identifiers\<close>

lemma generate_random_id_no_backslash:
  assumes "backslash \<notin> set prefix"
  shows "backslash \<notin> set (generate_random_id draws prefix)"
proof -
  have "(upper_letters @ digits) ! (k mod 36) \<in> set (upper_letters @ digits)" for k
    by (rule nth_mem) (simp add: upper_letters_def digits_def)
  moreover have "backslash \<notin> set (upper_letters @ digits)"
    by (simp add: upper_letters_def digits_def backslash_def)
  ultimately have "backslash \<noteq> (upper_letters @ digits) ! (k mod 36)" for k
    by metis
  with assms show ?thesis
    by (auto simp: generate_random_id_def backslash_def)
qed

lemma after_backslash_None: "backslash \<notin> set r \<Longrightarrow> after_backslash r = None"
  by (induction r) auto

lemma re_sub_str_plain:
  "backslash \<notin> set r \<Longrightarrow>
   re_sub_str other (word_scan word ci True ent text) r = Inr (sub_all word ci ent r text)"
  by (simp add: re_sub_str_def compile_template_def after_backslash_None sub_all_def)

lemma random_ids_loop_spec:
  assumes "backslash \<notin> set prefix"
    and "distinct (map fst dm)"
    and "\<forall>r \<in> snd ` set dm. backslash \<notin> set r"
  shows "\<exists>out dm'. random_ids_loop word ci other rnd prefix ents (result, dm, st) =
         Inr (out, dm', st\<lparr>redaction_log := redaction_log st @ map (\<lambda>e. Random_entry e (id_of dm' e)) ents\<rparr>)
     \<and> (\<forall>e r. map_of dm e = Some r \<longrightarrow> map_of dm' e = Some r)
     \<and> distinct (map fst dm') \<and> set (map fst dm') = set (map fst dm) \<union> set ents
     \<and> length dm \<le> length dm'
     \<and> map snd dm' = map snd dm @ map (\<lambda>k. generate_random_id (rnd k) prefix) [length dm ..< length dm']
     \<and> out = foldl (\<lambda>t e. sub_all word ci e (id_of dm' e) t) result ents"
  using assms(2,3)
proof (induction ents arbitrary: result dm st)
  case Nil
  then show ?case by simp
next
  case (Cons ent ents)
  define rid where "rid = (case map_of dm ent of
      None \<Rightarrow> generate_random_id (rnd (length dm)) prefix | Some r \<Rightarrow> r)"
  define dm1 where "dm1 = (case map_of dm ent of None \<Rightarrow> dm @ [(ent, rid)] | Some r \<Rightarrow> dm)"
  define st1 where "st1 = st\<lparr>redaction_log := redaction_log st @ [Random_entry ent rid]\<rparr>"
  have nb: "backslash \<notin> set rid"
  proof (cases "map_of dm ent")
    case None
    then show ?thesis by (simp add: rid_def generate_random_id_no_backslash [OF assms(1)])
  next
    case (Some r)
    then have "r \<in> snd ` set dm" by (metis map_of_SomeD image_eqI snd_conv)
    with Cons.prems(2) have "backslash \<notin> set r" by blast
    with Some show ?thesis by (simp add: rid_def)
  qed
  have d1: "distinct (map fst dm1)"
    using Cons.prems(1) by (auto simp: dm1_def map_of_eq_None_iff split: option.splits)
  have b1: "\<forall>r \<in> snd ` set dm1. backslash \<notin> set r"
    using Cons.prems(2) nb by (auto simp: dm1_def split: option.splits)
  have look: "map_of dm1 ent = Some rid"
    by (cases "map_of dm ent") (simp_all add: dm1_def rid_def map_add_def)
  have ext: "\<forall>e r. map_of dm e = Some r \<longrightarrow> map_of dm1 e = Some r"
    by (cases "map_of dm ent") (auto simp: dm1_def map_add_def split: option.splits)
  have keys: "set (map fst dm1) = set (map fst dm) \<union> {ent}"
    by (cases "map_of dm ent") (auto simp: dm1_def dest: map_of_SomeD intro: rev_image_eqI)
  have len1: "length dm \<le> length dm1"
    by (cases "map_of dm ent") (simp_all add: dm1_def)
  have ids1: "map snd dm1 = map snd dm @ map (\<lambda>k. generate_random_id (rnd k) prefix) [length dm ..< length dm1]"
    by (cases "map_of dm ent") (simp_all add: dm1_def rid_def)
  have step: "random_ids_loop word ci other rnd prefix (ent # ents) (result, dm, st)
      = random_ids_loop word ci other rnd prefix ents (sub_all word ci ent rid result, dm1, st1)"
    using re_sub_str_plain [OF nb, of other word ci ent result]
    by (simp add: Let_def rid_def [symmetric] dm1_def [symmetric] st1_def)
  from Cons.IH [OF d1 b1, of "sub_all word ci ent rid result" st1]
  obtain out dm' where r:
    "random_ids_loop word ci other rnd prefix ents (sub_all word ci ent rid result, dm1, st1) =
       Inr (out, dm', st1\<lparr>redaction_log := redaction_log st1 @ map (\<lambda>e. Random_entry e (id_of dm' e)) ents\<rparr>)"
    "\<forall>e r. map_of dm1 e = Some r \<longrightarrow> map_of dm' e = Some r"
    "distinct (map fst dm')" "set (map fst dm') = set (map fst dm1) \<union> set ents"
    "length dm1 \<le> length dm'"
    "map snd dm' = map snd dm1 @ map (\<lambda>k. generate_random_id (rnd k) prefix) [length dm1 ..< length dm']"
    "out = foldl (\<lambda>t e. sub_all word ci e (id_of dm' e) t) (sub_all word ci ent rid result) ents"
    by blast
  from r(2) look have id: "id_of dm' ent = rid" by (simp add: id_of_def)
  have upt: "[length dm ..< length dm'] = [length dm ..< length dm1] @ [length dm1 ..< length dm']"
    using len1 r(5) by (metis le_Suc_ex upt_add_eq_append)
  have ids: "map snd dm' = map snd dm @ map (\<lambda>k. generate_random_id (rnd k) prefix) [length dm ..< length dm']"
    unfolding upt using r(6) ids1 by simp
  have "random_ids_loop word ci other rnd prefix (ent # ents) (result, dm, st) =
         Inr (out, dm', st\<lparr>redaction_log := redaction_log st @ map (\<lambda>e. Random_entry e (id_of dm' e)) (ent # ents)\<rparr>)
     \<and> (\<forall>e r. map_of dm e = Some r \<longrightarrow> map_of dm' e = Some r)
     \<and> distinct (map fst dm') \<and> set (map fst dm') = set (map fst dm) \<union> set (ent # ents)
     \<and> length dm \<le> length dm'
     \<and> map snd dm' = map snd dm @ map (\<lambda>k. generate_random_id (rnd k) prefix) [length dm ..< length dm']
     \<and> out = foldl (\<lambda>t e. sub_all word ci e (id_of dm' e) t) result (ent # ents)"
    using r(1,2,3,4,7) ext keys len1 r(5) ids unfolding step
    by (simp add: id st1_def del: random_ids_loop.simps)
  then show ?case by blast
qed

text \<open>
  C9, amended. For a prefix without backslash, \<^verbatim>\<open>redact_with_random_ids\<close> returns, and
  the redactor differs only in the log, which grows by exactly one random entry per
  element of the entity list, in the order of the list, repeated elements and elements
  without a match included: the total of the report grows by the length of the list. The
  returned document mapping has each string of the list once; its identifiers are the
  generated ones, in the order of generation; every entry of an entity string, and every
  replacement made for it, carries the one identifier that the mapping holds for that
  string. The returned text is the result of one substitution per element, in the order of
  the list, each on the text that the substitutions before have left. The mapping document
  of the redactor is unchanged.
\<close>

theorem random_ids_one_entry_per_element:
  assumes "backslash \<notin> set prefix"
  shows "\<exists>out dm. redact_with_random_ids word ci other rnd st text ents prefix =
         Inr (out, dm, st\<lparr>redaction_log := redaction_log st @ map (\<lambda>e. Random_entry e (id_of dm e)) ents\<rparr>)
     \<and> total_redactions (get_redaction_report (final_state
            (redact_with_random_ids word ci other rnd st text ents prefix)))
          = total_redactions (get_redaction_report st) + length ents
     \<and> r_mapping (final_state (redact_with_random_ids word ci other rnd st text ents prefix))
          = r_mapping st
     \<and> distinct (map fst dm) \<and> set (map fst dm) = set ents
     \<and> map snd dm = map (\<lambda>k. generate_random_id (rnd k) prefix) [0 ..< length dm]
     \<and> out = foldl (\<lambda>t e. sub_all word ci e (id_of dm e) t) text ents"
proof -
  from random_ids_loop_spec [OF assms, of "[]" word ci other rnd ents "text" st]
  obtain out dm where r:
    "random_ids_loop word ci other rnd prefix ents (text, [], st) =
       Inr (out, dm, st\<lparr>redaction_log := redaction_log st @ map (\<lambda>e. Random_entry e (id_of dm e)) ents\<rparr>)"
    "distinct (map fst dm)" "set (map fst dm) = set ents"
    "map snd dm = map (\<lambda>k. generate_random_id (rnd k) prefix) [0 ..< length dm]"
    "out = foldl (\<lambda>t e. sub_all word ci e (id_of dm e) t) text ents"
    by auto
  then have "redact_with_random_ids word ci other rnd st text ents prefix =
         Inr (out, dm, st\<lparr>redaction_log := redaction_log st @ map (\<lambda>e. Random_entry e (id_of dm e)) ents\<rparr>)
     \<and> total_redactions (get_redaction_report (final_state
            (redact_with_random_ids word ci other rnd st text ents prefix)))
          = total_redactions (get_redaction_report st) + length ents
     \<and> r_mapping (final_state (redact_with_random_ids word ci other rnd st text ents prefix))
          = r_mapping st
     \<and> distinct (map fst dm) \<and> set (map fst dm) = set ents
     \<and> map snd dm = map (\<lambda>k. generate_random_id (rnd k) prefix) [0 ..< length dm]
     \<and> out = foldl (\<lambda>t e. sub_all word ci e (id_of dm e) t) text ents"
    by (simp add: redact_with_random_ids_def get_redaction_report_def)
  then show ?thesis by blast
qed

theorem random_ids_one_entry_per_element_witness:
  "backslash \<notin> set ''ENTITY''
   \<and> redact_with_random_ids ascii_word ascii_ci other1 rnd1 st0 ''Bob met bob''
         [''Bob'', ''Bob'', ''Zed''] ''ENTITY'' =
       Inr (''ENTITY-ABCDEFGH met ENTITY-ABCDEFGH'',
            [(''Bob'', ''ENTITY-ABCDEFGH''), (''Zed'', ''ENTITY-BCDEFGHI'')],
            st0\<lparr>redaction_log := [Random_entry ''Bob'' ''ENTITY-ABCDEFGH'',
                                    Random_entry ''Bob'' ''ENTITY-ABCDEFGH'',
                                    Random_entry ''Zed'' ''ENTITY-BCDEFGHI'']\<rparr>)
   \<and> total_redactions (get_redaction_report (final_state
        (redact_with_random_ids ascii_word ascii_ci other1 rnd1 st0 ''Bob met bob''
           [''Bob'', ''Bob'', ''Zed''] ''ENTITY''))) = 3"
proof -
  have h: "backslash \<notin> set ''ENTITY''" by (simp add: backslash_def)
  have e: "redact_with_random_ids ascii_word ascii_ci other1 rnd1 st0 ''Bob met bob''
         [''Bob'', ''Bob'', ''Zed''] ''ENTITY'' =
       Inr (''ENTITY-ABCDEFGH met ENTITY-ABCDEFGH'',
            [(''Bob'', ''ENTITY-ABCDEFGH''), (''Zed'', ''ENTITY-BCDEFGHI'')],
            st0\<lparr>redaction_log := [Random_entry ''Bob'' ''ENTITY-ABCDEFGH'',
                                    Random_entry ''Bob'' ''ENTITY-ABCDEFGH'',
                                    Random_entry ''Zed'' ''ENTITY-BCDEFGHI'']\<rparr>)"
    by code_simp
  from random_ids_one_entry_per_element [OF h, of ascii_word ascii_ci other1 rnd1 st0 "''Bob met bob''"
      "[''Bob'', ''Bob'', ''Zed'']"]
  have "total_redactions (get_redaction_report (final_state
        (redact_with_random_ids ascii_word ascii_ci other1 rnd1 st0 ''Bob met bob''
           [''Bob'', ''Bob'', ''Zed''] ''ENTITY'')))
      = total_redactions (get_redaction_report st0) + length [''Bob'', ''Bob'', ''Zed'']"
    by blast
  then have "total_redactions (get_redaction_report (final_state
        (redact_with_random_ids ascii_word ascii_ci other1 rnd1 st0 ''Bob met bob''
           [''Bob'', ''Bob'', ''Zed''] ''ENTITY''))) = 3"
    by (simp add: get_redaction_report_def st0_def)
  with h e show ?thesis by (intro conjI)
qed

text \<open>
  C9, as stated, fails for two calls. With a prefix made of a backslash and the letter q the identifier is no valid
  replacement template: the substitution raises \<^verbatim>\<open>re.error\<close>, although the entity is not
  in the text, and no entry is logged for the one element of the list. With the list
  \<^verbatim>\<open>['Bob', 'ENTITY']\<close> and the prefix \<^verbatim>\<open>ENTITY\<close>, the substitution for the second
  element rewrites the identifiers that the first one has put in the place of \<^verbatim>\<open>Bob\<close>,
  so the occurrences of \<^verbatim>\<open>Bob\<close> do not end as its identifier.
\<close>

theorem random_ids_counterexample:
  "redact_with_random_ids ascii_word ascii_ci other1 rnd1 st0 ''Bob met bob'' [''Zed''] prefix_q
     = Inl (Re_error, st0)
   \<and> redaction_log (final_state
        (redact_with_random_ids ascii_word ascii_ci other1 rnd1 st0 ''Bob met bob'' [''Zed''] prefix_q))
       = []
   \<and> redact_with_random_ids ascii_word ascii_ci other1 rnd1 st0 ''Bob met Bob''
         [''Bob'', ''ENTITY''] ''ENTITY'' =
       Inr (''ENTITY-BCDEFGHI-ABCDEFGH met ENTITY-BCDEFGHI-ABCDEFGH'',
            [(''Bob'', ''ENTITY-ABCDEFGH''), (''ENTITY'', ''ENTITY-BCDEFGHI'')],
            st0\<lparr>redaction_log := [Random_entry ''Bob'' ''ENTITY-ABCDEFGH'',
                                    Random_entry ''ENTITY'' ''ENTITY-BCDEFGHI'']\<rparr>)"
proof -
  have 1: "redact_with_random_ids ascii_word ascii_ci other1 rnd1 st0 ''Bob met bob'' [''Zed''] prefix_q
     = Inl (Re_error, st0)"
    by code_simp
  have 2: "redact_with_random_ids ascii_word ascii_ci other1 rnd1 st0 ''Bob met Bob''
         [''Bob'', ''ENTITY''] ''ENTITY'' =
       Inr (''ENTITY-BCDEFGHI-ABCDEFGH met ENTITY-BCDEFGHI-ABCDEFGH'',
            [(''Bob'', ''ENTITY-ABCDEFGH''), (''ENTITY'', ''ENTITY-BCDEFGHI'')],
            st0\<lparr>redaction_log := [Random_entry ''Bob'' ''ENTITY-ABCDEFGH'',
                                    Random_entry ''ENTITY'' ''ENTITY-BCDEFGHI'']\<rparr>)"
    by code_simp
  from 1 2 show ?thesis by (simp add: st0_def)
qed

section \<open>Redacting the entities of the mapping\<close>

text \<open>
  C3. The mapping holds the one entity Acme Inc. (no variations) with the alias Org_A, and
  the text holds one whole-word occurrence of it, followed by a space. The pattern ends in
  a word boundary, which does not exist between the full stop and the space: the code finds
  no match, returns the text as it is and logs nothing, where the claim has the occurrence
  replaced by Org_A and one entry logged.
\<close>

theorem redact_entities_misses_punctuated_term:
  "entities (r_mapping st3) =
     [\<lparr>original = ''Acme Inc.'', alias = ''Org_A'', type = ''organization'', variations = [],
       notes = [], added = []\<rparr>]
   \<and> occurrences ascii_word ascii_ci ''Acme Inc.'' text3 = 1
   \<and> replace_occurrences ascii_word ascii_ci ''Acme Inc.'' ''Org_A'' text3 = ''Contact Org_A today''
   \<and> redact_entities ascii_word ascii_ci st3 text3 False = (text3, st3)
   \<and> redaction_log (snd (redact_entities ascii_word ascii_ci st3 text3 False)) = redaction_log st3"
proof -
  have 1: "entities (r_mapping st3) =
     [\<lparr>original = ''Acme Inc.'', alias = ''Org_A'', type = ''organization'', variations = [],
       notes = [], added = []\<rparr>]"
    by (simp add: st3_def st0_def add_alias_def empty_mapping_def or_empty_def)
  have w: "whole_word_scan ascii_word ascii_ci ''Acme Inc.'' text3
      = ([(''Contact '', ''Acme Inc.'')], '' today'')"
    by code_simp
  have c: "word_scan ascii_word ascii_ci True ''Acme Inc.'' text3 = ([], text3)"
    by code_simp
  have 2: "occurrences ascii_word ascii_ci ''Acme Inc.'' text3 = 1" by (simp add: occurrences_def w)
  have 3: "replace_occurrences ascii_word ascii_ci ''Acme Inc.'' ''Org_A'' text3 = ''Contact Org_A today''"
    by (simp add: replace_occurrences_def w)
  have 4: "redact_entities ascii_word ascii_ci st3 text3 False = (text3, st3)"
    by (simp add: redact_entities_def 1 c)
  from 1 2 3 4 show ?thesis by simp
qed

text \<open>
  For a term that begins and ends with a word character the two notions agree, provided
  that two characters equal up to case are both word characters or both none: the code
  replaces exactly the whole-word occurrences and logs one entity entry for each, with
  \<^verbatim>\<open>mapped_from\<close> the term and the alias as replacement.
\<close>

lemma ci_hd:
  assumes "list_all2 ci T m" and "T \<noteq> []" and "\<And>a b. ci a b \<Longrightarrow> word a = word b"
  shows "word (hd m) = word (hd T)"
proof -
  from assms(1,2) obtain a as b bs where "T = a # as" "m = b # bs" "ci a b"
    by (cases T; cases m) auto
  with assms(3) show ?thesis by auto
qed

lemma ci_last:
  assumes "list_all2 ci T m" and "T \<noteq> []" and "\<And>a b. ci a b \<Longrightarrow> word a = word b"
  shows "word (last m) = word (last T)"
proof -
  from assms(1) have len: "length T = length m" by (rule list_all2_lengthD)
  with assms(2) have m: "m \<noteq> []" by auto
  from assms(2) have "length T - 1 < length T" by simp
  from list_all2_nthD [OF assms(1) this] have "ci (T ! (length T - 1)) (m ! (length T - 1))" .
  then have "ci (last T) (last m)"
    using assms(2) m len by (simp add: last_conv_nth)
  with assms(3) show ?thesis by auto
qed

lemma match_at_whole_word:
  assumes "T \<noteq> []" "word (hd T)" "word (last T)" and ci: "\<And>a b. ci a b \<Longrightarrow> word a = word b"
  shows "match_at word ci True T prev rest = whole_word_at word ci T prev rest"
proof (cases "length T \<le> length rest \<and> list_all2 ci T (take (length T) rest)")
  case False
  then show ?thesis
    unfolding match_at_def whole_word_at_def literal_eq_def by auto
next
  case True
  define m where "m = take (length T) rest"
  from True have len: "length T \<le> length rest" and low: "list_all2 ci T m"
    by (simp_all add: m_def)
  from assms(1) len have m: "m \<noteq> []" by (auto simp: m_def)
  from ci_hd [of ci T m word, OF low assms(1) ci] assms(2) have hm: "word (hd m)" by simp
  from ci_last [of ci T m word, OF low assms(1) ci] assms(3) have lm: "word (last m)" by simp
  from m obtain c cs where rest: "rest = c # cs" by (cases rest) (auto simp: m_def)
  from assms(1) have "hd m = c" unfolding m_def rest by (cases T) simp_all
  with hm have wa: "word_after word rest" by (simp add: word_after_def rest)
  from m lm have wb: "word_before word (last_char prev m)"
    by (simp add: word_before_def last_char_def)
  have "match_at word ci True T prev rest =
      (boundary word prev rest \<and> boundary word (last_char prev m) (drop (length T) rest))"
    using len low by (simp add: match_at_def literal_eq_def m_def)
  also have "\<dots> = (\<not> word_before word prev \<and> \<not> word_after word (drop (length T) rest))"
    using wa wb by (simp add: boundary_def)
  also have "\<dots> = whole_word_at word ci T prev rest"
    using len low by (simp add: whole_word_at_def m_def)
  finally show ?thesis .
qed

lemma word_scan_whole_word:
  assumes "T \<noteq> []" "word (hd T)" "word (last T)" and ci: "\<And>a b. ci a b \<Longrightarrow> word a = word b"
  shows "word_scan word ci True T text = whole_word_scan word ci T text"
proof -
  have "match_at word ci True T = whole_word_at word ci T"
    by (intro ext) (rule match_at_whole_word [of T word ci, OF assms])
  then show ?thesis by (simp add: word_scan_def whole_word_scan_def)
qed

lemma redact_entities_whole_word_term:
  assumes "entities (r_mapping st) = [e]" and "variations e = []" and "original e \<noteq> []"
    and "word (hd (original e))" and "word (last (original e))"
    and ci: "\<And>a b. ci a b \<Longrightarrow> word a = word b"
  shows "redact_entities word ci st text False =
     (replace_occurrences word ci (original e) (alias e) text,
      st\<lparr>redaction_log := redaction_log st @
           map (\<lambda>(gap, m). Entity_entry m (alias e) (original e))
             (fst (whole_word_scan word ci (original e) text))\<rparr>)"
    and "length (redaction_log (snd (redact_entities word ci st text False)))
       = length (redaction_log st) + occurrences word ci (original e) text"
proof -
  have sc: "word_scan word ci True (original e) text = whole_word_scan word ci (original e) text"
    by (rule word_scan_whole_word [of "original e" word ci, OF assms(3-5) ci])
  show 1: "redact_entities word ci st text False =
     (replace_occurrences word ci (original e) (alias e) text,
      st\<lparr>redaction_log := redaction_log st @
           map (\<lambda>(gap, m). Entity_entry m (alias e) (original e))
             (fst (whole_word_scan word ci (original e) text))\<rparr>)"
    using assms(1-3)
    by (simp add: redact_entities_def sc re_sub_fn_replacer replace_occurrences_def)
  show "length (redaction_log (snd (redact_entities word ci st text False)))
       = length (redaction_log st) + occurrences word ci (original e) text"
    unfolding 1 by (simp add: occurrences_def)
qed

lemma ascii_ci_word: "ascii_ci a b \<Longrightarrow> ascii_word a = ascii_word b"
proof -
  have w: "ascii_word (ascii_lower_char c) = ascii_word c" for c
    by (auto simp: ascii_word_def ascii_lower_char_def upper_letters_def lower_letters_def digits_def)
  assume "ascii_ci a b"
  then have "ascii_lower_char a = ascii_lower_char b" by (simp add: ascii_ci_def)
  then show ?thesis by (metis w)
qed

lemma redact_entities_example:
  "redact_entities ascii_word ascii_ci (add_alias st0 ''John Smith'' ''Person_A'' ''person'' None [])
     ''Ask John Smith or JOHN SMITH, not John Smithson'' False =
   (''Ask Person_A or Person_A, not John Smithson'',
    (add_alias st0 ''John Smith'' ''Person_A'' ''person'' None [])
      \<lparr>redaction_log := [Entity_entry ''John Smith'' ''Person_A'' ''John Smith'',
                         Entity_entry ''JOHN SMITH'' ''Person_A'' ''John Smith'']\<rparr>)"
proof -
  let ?st = "add_alias st0 ''John Smith'' ''Person_A'' ''person'' None []"
  let ?e = "\<lparr>original = ''John Smith'', alias = ''Person_A'', type = ''person'', variations = [],
       notes = [], added = []\<rparr>"
  have e: "entities (r_mapping ?st) = [?e]"
    by (simp add: st0_def add_alias_def empty_mapping_def or_empty_def)
  have w: "ascii_word (hd ''John Smith'')" "ascii_word (last ''John Smith'')"
    by (simp_all add: ascii_word_def upper_letters_def lower_letters_def digits_def)
  have s: "whole_word_scan ascii_word ascii_ci ''John Smith'' ''Ask John Smith or JOHN SMITH, not John Smithson''
      = ([(''Ask '', ''John Smith''), ('' or '', ''JOHN SMITH'')], '', not John Smithson'')"
    by code_simp
  have l: "redaction_log ?st = []" by (simp add: st0_def add_alias_def)
  from redact_entities_whole_word_term(1) [of ?st ?e ascii_word ascii_ci
      "''Ask John Smith or JOHN SMITH, not John Smithson''", OF e _ _ _ _ ascii_ci_word] w
  show ?thesis by (simp add: replace_occurrences_def s l)
qed


end
